theory Spec2Isabelle
  imports Main "HOL-Library.Word"
begin

unbundle bit_operations_syntax


section \<open>C strings and buffers\<close>

text \<open>
  A C string is modelled by the list of the bytes it holds.  Reading index \<open>k\<close> of a
  string yields the byte stored there, and the terminating NUL at (and, harmlessly,
  beyond) the end of the list.  A list that holds a NUL byte models memory in which the
  C string ends at that byte: every library routine below stops there, as in C.

  The counters of the source are C \<open>int\<close>s; the model counts in \<open>nat\<close>, which agrees
  with the code for strings and expansions shorter than \<open>2^31\<close> bytes.
\<close>

datatype error = BufferOverflow | UninitRead | OutOfBounds

definition NUL :: char where
  "NUL = CHR 0x00"

definition BSL :: char where
  "BSL = CHR 0x5C"

definition c_at :: "string \<Rightarrow> nat \<Rightarrow> char" where
  "c_at s k = (if k < length s then s ! k else NUL)"

definition cstr :: "string \<Rightarrow> string" where
  "cstr s = takeWhile (\<lambda>c. c \<noteq> NUL) s"

definition strlen :: "string \<Rightarrow> nat" where
  "strlen s = length (cstr s)"

text \<open>\<open>strchr (s + k, c)\<close> for \<open>c \<noteq> NUL\<close>: the offset from \<open>k\<close> of the first \<open>c\<close>
  before the end of the string, if there is one.\<close>

definition strchr :: "string \<Rightarrow> nat \<Rightarrow> char \<Rightarrow> nat option" where
  "strchr s k c =
     (let t = cstr (drop k s)
      in if c \<in> set t then Some (length (takeWhile (\<lambda>x. x \<noteq> c) t)) else None)"

text \<open>\<open>isalpha\<close> and \<open>isalnum\<close> in the C locale.\<close>

definition isalpha :: "char \<Rightarrow> bool" where
  "isalpha c = (let n = (of_char c :: nat) in (65 \<le> n \<and> n \<le> 90) \<or> (97 \<le> n \<and> n \<le> 122))"

definition isalnum :: "char \<Rightarrow> bool" where
  "isalnum c = (let n = (of_char c :: nat) in (48 \<le> n \<and> n \<le> 57) \<or> isalpha c)"

text \<open>A heap block from \<open>smalloc\<close>: its cells are uninitialised (\<open>None\<close>) until written.
  A write outside the block is an error of the model.\<close>

type_synonym buf = "char option list"

definition smalloc :: "nat \<Rightarrow> buf" where
  "smalloc n = replicate n None"

definition poke :: "buf \<Rightarrow> nat \<Rightarrow> char \<Rightarrow> error + buf" where
  "poke d k c = (if k < length d then Inr (d[k := Some c]) else Inl BufferOverflow)"

fun pokes :: "buf \<Rightarrow> nat \<Rightarrow> string \<Rightarrow> error + buf" where
  "pokes d k [] = Inr d"
| "pokes d k (c # cs) =
     (case poke d k c of Inl e \<Rightarrow> Inl e | Inr d' \<Rightarrow> pokes d' (Suc k) cs)"

text \<open>\<open>sprintf (&d[k], "%s", v)\<close> stores the bytes of \<open>v\<close> and a terminating NUL.\<close>

definition sprintf_s :: "buf \<Rightarrow> nat \<Rightarrow> string \<Rightarrow> error + buf" where
  "sprintf_s d k v = pokes d k (cstr v @ [NUL])"

text \<open>Reading a buffer as a C string, as the caller of a \<open>char *\<close> result does.\<close>

fun c_string :: "buf \<Rightarrow> error + string" where
  "c_string [] = Inl OutOfBounds"
| "c_string (None # d) = Inl UninitRead"
| "c_string (Some c # d) =
     (if c = NUL then Inr []
      else (case c_string d of Inl e \<Rightarrow> Inl e | Inr s \<Rightarrow> Inr (c # s)))"

section \<open>\<open>expand_envstrings\<close>\<close>

type_synonym env = "string \<Rightarrow> string option"

record st =
  st_i :: nat
  st_j :: nat
  skipnext :: bool
  dest :: buf

text \<open>\<open>j += (pass==1) ? sprintf(&dest[j], "%s", tmps) : strlen(tmps)\<close>, guarded by
  \<open>(tmps = getenv(varname)) != NULL\<close>.\<close>

definition put_env :: "env \<Rightarrow> bool \<Rightarrow> string \<Rightarrow> st \<Rightarrow> error + st" where
  "put_env e pass varname s =
     (case e varname of
        None \<Rightarrow> Inr s
      | Some tmps \<Rightarrow>
          if pass then
            (case sprintf_s (dest s) (st_j s) tmps of
               Inl err \<Rightarrow> Inl err
             | Inr d \<Rightarrow> Inr (s\<lparr>st_j := st_j s + strlen tmps, dest := d\<rparr>))
          else Inr (s\<lparr>st_j := st_j s + strlen tmps\<rparr>))"

text \<open>The \<open>while\<close> loop that measures a bare name: \<open>elen\<close> starts at 1 and grows
  while \<open>str[i+elen+1]\<close> is alphanumeric or an underscore.\<close>

definition name_elen :: "string \<Rightarrow> nat \<Rightarrow> nat" where
  "name_elen str i =
     1 + length (takeWhile (\<lambda>c. isalnum c \<or> c = CHR ''_'') (drop (i + 2) str))"

text \<open>The three ways of reading what follows a \<open>$\<close>: the value of \<open>elen\<close>, the name
  copied into \<open>varname\<close>, and the new \<open>i\<close>.\<close>

definition dollar :: "string \<Rightarrow> nat \<Rightarrow> int \<times> string \<times> nat" where
  "dollar str i =
     (case (if c_at str (i + 1) = CHR ''{'' then strchr str (i + 2) (CHR ''}'') else None) of
        Some elen \<Rightarrow> (int elen, take elen (drop (i + 2) str), i + (elen + 2))
      | None \<Rightarrow>
          if isalpha (c_at str (i + 1)) \<or> c_at str (i + 1) = CHR ''_'' then
            (let elen = name_elen str i
             in (int elen, take elen (drop (i + 1) str), i + elen))
          else (- 1, [], i))"

text \<open>The body of the inner \<open>for\<close> loop, without its \<open>i++\<close>.\<close>

definition body :: "env \<Rightarrow> bool \<Rightarrow> string \<Rightarrow> st \<Rightarrow> error + st" where
  "body e pass str s =
     (let i = st_i s in
      if c_at str i = BSL \<and> (c_at str (i + 1) = CHR ''$'' \<or> c_at str (i + 1) = CHR ''~'') then
        Inr (s\<lparr>skipnext := True\<rparr>)
      else if \<not> skipnext s \<and> c_at str i = CHR ''$'' then
        (case dollar str i of
           (elen, varname, i') \<Rightarrow>
             if elen > 0 then put_env e pass varname (s\<lparr>st_i := i'\<rparr>)
             else Inr (s\<lparr>st_i := i'\<rparr>))
      else if \<not> skipnext s \<and> c_at str i = CHR ''~'' then
        put_env e pass ''HOME'' s
      else
        (if pass then
           (case poke (dest s) (st_j s) (c_at str i) of
              Inl err \<Rightarrow> Inl err
            | Inr d \<Rightarrow> Inr (s\<lparr>st_j := st_j s + 1, skipnext := False, dest := d\<rparr>))
         else Inr (s\<lparr>st_j := st_j s + 1, skipnext := False\<rparr>)))"

lemma put_env_i: "put_env e pass v s = Inr s' \<Longrightarrow> st_i s' = st_i s"
  by (auto simp: put_env_def split: option.splits if_splits sum.splits)

lemma dollar_i: "dollar str i = (elen, v, i') \<Longrightarrow> i \<le> i'"
  by (auto simp: dollar_def Let_def split: option.splits if_splits)

lemma body_i: "body e pass str s = Inr s' \<Longrightarrow> st_i s \<le> st_i s'"
  by (auto simp: body_def Let_def split: if_splits prod.splits sum.splits
           dest!: put_env_i dollar_i)

text \<open>\<open>for (...; str[i]; i++)\<close>, entered with the state \<open>s\<close>.\<close>

function for_loop :: "env \<Rightarrow> bool \<Rightarrow> string \<Rightarrow> st \<Rightarrow> error + st" where
  "for_loop e pass str s =
     (if c_at str (st_i s) = NUL then Inr s
      else (case body e pass str s of
              Inl err \<Rightarrow> Inl err
            | Inr s' \<Rightarrow> for_loop e pass str (s'\<lparr>st_i := st_i s' + 1\<rparr>)))"
  by pat_completeness auto
termination
proof (relation "measure (\<lambda>(e, pass, str, s). length str - st_i s)")
  show "wf (measure (\<lambda>(e, pass, str, s). length str - st_i s))"
    by simp
next
  fix e pass str s s'
  assume nz: "c_at str (st_i s) \<noteq> NUL" and b: "body e pass str s = Inr s'"
  from nz have "st_i s < length str"
    by (simp add: c_at_def split: if_splits)
  moreover from b have "st_i s \<le> st_i s'"
    by (rule body_i)
  ultimately show "((e, pass, str, s'\<lparr>st_i := st_i s' + 1\<rparr>), (e, pass, str, s))
      \<in> measure (\<lambda>(e, pass, str, s). length str - st_i s)"
    by simp
qed

declare for_loop.simps [simp del]

text \<open>The two passes: the first counts, \<open>dest\<close> is allocated with \<open>j + 1\<close> bytes, the
  second copies; \<open>skipnext\<close> is initialised once, before the first pass.  The result
  is the C string the returned pointer designates.\<close>

definition expand_envstrings :: "env \<Rightarrow> string \<Rightarrow> error + string" where
  "expand_envstrings e str =
     (case for_loop e False str \<lparr>st_i = 0, st_j = 0, skipnext = False, dest = []\<rparr> of
        Inl err \<Rightarrow> Inl err
      | Inr s0 \<Rightarrow>
          (case for_loop e True str
                  \<lparr>st_i = 0, st_j = 0, skipnext = skipnext s0, dest = smalloc (st_j s0 + 1)\<rparr> of
             Inl err \<Rightarrow> Inl err
           | Inr s1 \<Rightarrow>
               (case poke (dest s1) (st_j s1) NUL of
                  Inl err \<Rightarrow> Inl err
                | Inr d \<Rightarrow> c_string d)))"


section \<open>Bytes that are neither escaped nor inside braces\<close>

text \<open>
  Which bytes of a string the left-to-right reading of the specification looks at, told
  without the loop of the code.  Reading starts in mode \<open>Scan\<close>.  A backslash that is
  looked at and is followed by \<open>$\<close> or \<open>~\<close> escapes that byte, which is then not
  looked at.  A \<open>$\<close> that is looked at and is followed by \<open>{\<close> and, somewhere after
  it, by \<open>}\<close> opens a reference: no byte up to and including the first \<open>}\<close> is looked
  at.  Every other byte leaves the mode unchanged.  \<open>marks Scan str ! i\<close> tells whether
  byte \<open>i\<close> is looked at, that is, whether it is neither escaped nor part of a
  \<open>${...}\<close> reference.
\<close>

datatype mode = Scan | Escaped | InBraces

fun marks :: "mode \<Rightarrow> string \<Rightarrow> bool list" where
  "marks m [] = []"
| "marks Escaped (c # s) = False # marks Scan s"
| "marks InBraces (c # s) = False # marks (if c = CHR ''}'' then Scan else InBraces) s"
| "marks Scan (c # s) =
     True #
     marks (if c = BSL \<and> s \<noteq> [] \<and> (hd s = CHR ''$'' \<or> hd s = CHR ''~'') then Escaped
            else if c = CHR ''$'' \<and> s \<noteq> [] \<and> hd s = CHR ''{'' \<and> CHR ''}'' \<in> set (tl s)
                 then InBraces
            else Scan) s"

definition unescaped_outside_braces :: "string \<Rightarrow> nat \<Rightarrow> bool" where
  "unescaped_outside_braces str i = (i < length str \<and> marks Scan str ! i)"


section \<open>Filenames\<close>

text \<open>
  \<open>struct Filename\<close> holds one C string.  The \<open>int\<close> lengths and sizes of the two
  routines below are modelled as natural numbers: they are lengths and capacities, and
  agree with the code below \<open>2^31\<close>.
\<close>

record Filename =
  path :: string

text \<open>\<open>strcpy (d, s)\<close>: the bytes of \<open>s\<close> and its NUL, from the start of \<open>d\<close>.\<close>

definition strcpy :: "buf \<Rightarrow> string \<Rightarrow> error + buf" where
  "strcpy d s = pokes d 0 (cstr s @ [NUL])"

text \<open>\<open>memchr (d, c, n)\<close>: the index of the first \<open>c\<close> among the first \<open>n\<close> bytes
  of \<open>d\<close>.  Reading past the block or reading a byte never written is an error.\<close>

fun memchr :: "buf \<Rightarrow> char \<Rightarrow> nat \<Rightarrow> error + nat option" where
  "memchr d c 0 = Inr None"
| "memchr [] c (Suc n) = Inl OutOfBounds"
| "memchr (None # d) c (Suc n) = Inl UninitRead"
| "memchr (Some x # d) c (Suc n) =
     (if x = c then Inr (Some 0)
      else (case memchr d c n of
              Inl e \<Rightarrow> Inl e
            | Inr None \<Rightarrow> Inr None
            | Inr (Some k) \<Rightarrow> Inr (Some (Suc k))))"

text \<open>\<open>dupstr\<close> of a string held in a buffer.\<close>

definition filename_from_str :: "string \<Rightarrow> Filename" where
  "filename_from_str str = \<lparr>path = cstr str\<rparr>"

text \<open>\<open>filename_serialise (f, vdata)\<close>: the length returned, and the buffer afterwards
  (\<open>None\<close> for a NULL \<open>vdata\<close>).\<close>

definition filename_serialise :: "Filename \<Rightarrow> buf option \<Rightarrow> error + (nat \<times> buf option)" where
  "filename_serialise f vdata =
     (let len = strlen (path f) + 1
      in case vdata of
           None \<Rightarrow> Inr (len, None)
         | Some data \<Rightarrow>
             (case strcpy data (path f) of
                Inl e \<Rightarrow> Inl e
              | Inr data' \<Rightarrow> Inr (len, Some data')))"

text \<open>\<open>filename_deserialise (vdata, maxsize, used)\<close>: \<open>None\<close> for a NULL result,
  otherwise the new \<open>Filename\<close> and the value stored in \<open>*used\<close>.\<close>

definition filename_deserialise :: "buf \<Rightarrow> nat \<Rightarrow> error + (Filename \<times> nat) option" where
  "filename_deserialise data maxsize =
     (case memchr data NUL maxsize of
        Inl e \<Rightarrow> Inl e
      | Inr None \<Rightarrow> Inr None
      | Inr (Some end) \<Rightarrow>
          (case c_string data of
             Inl e \<Rightarrow> Inl e
           | Inr s \<Rightarrow> Inr (Some (filename_from_str s, end + 1))))"


section \<open>The operating system\<close>

text \<open>
  The system calls are parameters of the model.  A value of type \<open>'fs\<close> is the state
  of the file system; \<open>mkdir\<close> returns the \<open>errno\<close> of a failed call (\<open>None\<close> for
  success) and the new state, \<open>stat\<close> the owner and the mode of a directory or the
  \<open>errno\<close> of its failure, \<open>access\<close> whether \<open>access (p, F_OK) == 0\<close>.  Modes and
  user ids are 32-bit words; \<open>0700\<close>, \<open>0777\<close> and \<open>077\<close> are 448, 511 and 63.
\<close>

datatype errno = EEXIST | ENOENT | EACCES | ENOTDIR | EROFS | ENOSPC

record stat =
  st_uid :: "32 word"
  st_mode :: "32 word"

record 'fs sys =
  sys_mkdir :: "'fs \<Rightarrow> string \<Rightarrow> 32 word \<Rightarrow> errno option \<times> 'fs"
  sys_stat :: "'fs \<Rightarrow> string \<Rightarrow> errno + stat"
  sys_access :: "'fs \<Rightarrow> string \<Rightarrow> bool"
  sys_getuid :: "32 word"
  sys_strerror :: "errno \<Rightarrow> string"

text \<open>The conversions \<open>%d\<close> and \<open>%03o\<close> of \<open>printf\<close>.\<close>

fun digits :: "nat \<Rightarrow> nat \<Rightarrow> string" where
  "digits b n =
     (if b < 2 \<or> n < b then [''0123456789'' ! n]
      else digits b (n div b) @ [''0123456789'' ! (n mod b)])"

declare digits.simps [simp del]

definition fmt_d :: "int \<Rightarrow> string" where
  "fmt_d n = (if n < 0 then CHR ''-'' # digits 10 (nat (- n)) else digits 10 (nat n))"

definition fmt_03o :: "nat \<Rightarrow> string" where
  "fmt_03o n = replicate (3 - length (digits 8 n)) (CHR ''0'') @ digits 8 n"

text \<open>The four messages that \<open>dupprintf\<close> builds.\<close>

definition mkdir_msg :: "'fs sys \<Rightarrow> string \<Rightarrow> errno \<Rightarrow> string" where
  "mkdir_msg sys d e = d @ '': mkdir: '' @ cstr (sys_strerror sys e)"

definition stat_msg :: "'fs sys \<Rightarrow> string \<Rightarrow> errno \<Rightarrow> string" where
  "stat_msg sys d e = d @ '': stat: '' @ cstr (sys_strerror sys e)"

definition owner_msg :: "string \<Rightarrow> 32 word \<Rightarrow> string" where
  "owner_msg d uid = d @ '': directory owned by uid '' @ fmt_d (sint uid) @ '', not by us''"

definition perms_msg :: "string \<Rightarrow> 32 word \<Rightarrow> string" where
  "perms_msg d mode =
     d @ '': directory has overgenerous permissions '' @ fmt_03o (unat (mode AND 511))
       @ '' (expected 700)''"

text \<open>\<open>make_dir_and_check_ours\<close>: \<open>check_ours\<close> is its second half, from the call
  of \<open>stat\<close> on.  The result is the message returned (\<open>None\<close> for NULL) and the state
  of the file system afterwards.\<close>

definition check_ours :: "'fs sys \<Rightarrow> 'fs \<Rightarrow> string \<Rightarrow> string option" where
  "check_ours sys fs d =
     (case sys_stat sys fs d of
        Inl e \<Rightarrow> Some (stat_msg sys d e)
      | Inr st \<Rightarrow>
          if st_uid st \<noteq> sys_getuid sys then Some (owner_msg d (st_uid st))
          else if st_mode st AND 63 \<noteq> 0 then Some (perms_msg d (st_mode st))
          else None)"

definition make_dir_and_check_ours :: "'fs sys \<Rightarrow> 'fs \<Rightarrow> string \<Rightarrow> string option \<times> 'fs" where
  "make_dir_and_check_ours sys fs dirname =
     (let d = cstr dirname in
      case sys_mkdir sys fs d 448 of
        (None, fs') \<Rightarrow> (check_ours sys fs' d, fs')
      | (Some e, fs') \<Rightarrow>
          if e \<noteq> EEXIST then (Some (mkdir_msg sys d e), fs')
          else (check_ours sys fs' d, fs'))"


text \<open>\<open>strcspn (s + k, reject)\<close>, \<open>strspn (s + k, accept)\<close> and
  \<open>strrchr (s, c)\<close> (as an index) for \<open>c \<noteq> NUL\<close>.\<close>

definition strcspn :: "string \<Rightarrow> nat \<Rightarrow> string \<Rightarrow> nat" where
  "strcspn s k reject = length (takeWhile (\<lambda>c. c \<noteq> NUL \<and> c \<notin> set reject) (drop k s))"

definition strspn :: "string \<Rightarrow> nat \<Rightarrow> string \<Rightarrow> nat" where
  "strspn s k accept = length (takeWhile (\<lambda>c. c \<noteq> NUL \<and> c \<in> set accept) (drop k s))"

definition strrchr :: "string \<Rightarrow> char \<Rightarrow> nat option" where
  "strrchr s c =
     (let t = cstr s
      in if c \<in> set t then Some (length t - 1 - length (takeWhile (\<lambda>x. x \<noteq> c) (rev t)))
         else None)"

text \<open>\<open>mkdir (prefix, mode) < 0 && errno != EEXIST\<close>, with the message returned in
  that case.\<close>

definition try_mkdir :: "'fs sys \<Rightarrow> 'fs \<Rightarrow> string \<Rightarrow> 32 word \<Rightarrow> string option \<times> 'fs" where
  "try_mkdir sys fs prefix mode =
     (case sys_mkdir sys fs prefix mode of
        (None, fs') \<Rightarrow> (None, fs')
      | (Some e, fs') \<Rightarrow>
          if e \<noteq> EEXIST then (Some (mkdir_msg sys prefix e), fs') else (None, fs'))"

lemma strcspn_stop:
  assumes "c_at pth (pos + strcspn pth pos ''/'') \<noteq> NUL"
  shows "pos + strcspn pth pos ''/'' < length pth"
    and "pth ! (pos + strcspn pth pos ''/'') = CHR ''/''"
    and "0 < strspn pth (pos + strcspn pth pos ''/'') ''/''"
proof -
  let ?P = "\<lambda>c. c \<noteq> NUL \<and> c \<notin> set ''/''"
  let ?xs = "drop pos pth"
  let ?n = "length (takeWhile ?P ?xs)"
  let ?q = "pos + strcspn pth pos ''/''"
  have q: "?q = pos + ?n" by (simp add: strcspn_def)
  from assms show lt: "?q < length pth"
    by (simp add: c_at_def split: if_splits)
  with assms have nz: "pth ! ?q \<noteq> NUL" by (simp add: c_at_def)
  from lt q have "?n < length ?xs" by simp
  then have "\<not> ?P (?xs ! ?n)" by (rule nth_length_takeWhile)
  moreover from lt q have "?xs ! ?n = pth ! ?q" by simp
  ultimately show sl: "pth ! ?q = CHR ''/''" using nz by auto
  from lt have "drop ?q pth = pth ! ?q # drop (Suc ?q) pth"
    by (simp add: Cons_nth_drop_Suc)
  with sl show "0 < strspn pth ?q ''/''"
    by (simp add: strspn_def NUL_def)
qed

text \<open>The \<open>while (1)\<close> loop of \<open>make_dir_path\<close>, entered with \<open>pos\<close>.\<close>

function make_dir_path_from ::
    "'fs sys \<Rightarrow> string \<Rightarrow> 32 word \<Rightarrow> nat \<Rightarrow> 'fs \<Rightarrow> string option \<times> 'fs" where
  "make_dir_path_from sys pth mode pos fs =
     (let pos' = pos + strcspn pth pos ''/'' in
      case (if pos' > 0 then try_mkdir sys fs (take pos' pth) mode else (None, fs)) of
        (Some ret, fs') \<Rightarrow> (Some ret, fs')
      | (None, fs') \<Rightarrow>
          if c_at pth pos' = NUL then (None, fs')
          else make_dir_path_from sys pth mode (pos' + strspn pth pos' ''/'') fs')"
  by pat_completeness auto
termination
  apply (relation "measure (\<lambda>(sys, pth, mode, pos, fs). length pth - pos)")
   apply simp
  apply clarsimp
  apply (frule strcspn_stop(1))
  apply (drule strcspn_stop(3))
  apply arith
  done

declare make_dir_path_from.simps [simp del]

definition make_dir_path :: "'fs sys \<Rightarrow> 'fs \<Rightarrow> string \<Rightarrow> 32 word \<Rightarrow> string option \<times> 'fs" where
  "make_dir_path sys fs pth mode = make_dir_path_from sys pth mode 0 fs"

text \<open>\<open>mkdir_path\<close>: the result \<open>Some []\<close> is the empty string that tells the
  caller that nothing was created.\<close>

definition mkdir_path :: "'fs sys \<Rightarrow> 'fs \<Rightarrow> Filename \<Rightarrow> string option \<times> 'fs" where
  "mkdir_path sys fs fn =
     (case strrchr (path fn) (CHR ''/'') of
        Some pos \<Rightarrow>
          (let folderpath = take pos (path fn)
           in if sys_access sys fs folderpath then (Some [], fs)
              else make_dir_path sys fs folderpath 511)
      | None \<Rightarrow> (Some [], fs))"

subsection \<open>A small file system\<close>

text \<open>
  A table of directories with their owner and mode, to instantiate the theorems:
  \<open>mkdir\<close> fails with \<open>EEXIST\<close> on a path of the table and with \<open>EACCES\<close> on
  \<open>/proc/x\<close>, and otherwise adds the path with the caller as owner.
\<close>

type_synonym dirs = "(string \<times> stat) list"

definition demo_sys :: "32 word \<Rightarrow> dirs sys" where
  "demo_sys uid =
     \<lparr>sys_mkdir = (\<lambda>fs p m. if map_of fs p \<noteq> None then (Some EEXIST, fs)
                            else if p = ''/proc/x'' then (Some EACCES, fs)
                            else (None, (p, \<lparr>st_uid = uid, st_mode = m\<rparr>) # fs)),
      sys_stat = (\<lambda>fs p. case map_of fs p of None \<Rightarrow> Inl ENOENT | Some st \<Rightarrow> Inr st),
      sys_access = (\<lambda>fs p. map_of fs p \<noteq> None),
      sys_getuid = uid,
      sys_strerror = (\<lambda>e. case e of EEXIST \<Rightarrow> ''File exists'' | ENOENT \<Rightarrow> ''No such file or directory''
                          | EACCES \<Rightarrow> ''Permission denied'' | ENOTDIR \<Rightarrow> ''Not a directory''
                          | EROFS \<Rightarrow> ''Read-only file system'' | ENOSPC \<Rightarrow> ''No space left on device'')\<rparr>"

subsection \<open>The directories to create, in the words of the specification\<close>

text \<open>
  The slash-delimited prefixes of a path \<open>P\<close>: the non-empty prefixes that end where a
  component ends (the next byte is a slash, the last byte is not), and \<open>P\<close> itself,
  from the shortest to the longest.  \<open>mkdir_each\<close> attempts \<open>mkdir\<close> on each path of
  a list in turn: success and \<open>EEXIST\<close> let it go on, any other failure stops it with
  the message that names the path and the error, and it returns NULL at the end of the
  list.
\<close>

definition is_delim :: "string \<Rightarrow> nat \<Rightarrow> bool" where
  "is_delim P k = (k = length P \<or> (c_at P k = CHR ''/'' \<and> c_at P (k - 1) \<noteq> CHR ''/''))"

definition slash_prefixes :: "string \<Rightarrow> string list" where
  "slash_prefixes P = map (\<lambda>k. take k P) (filter (is_delim P) [1..<Suc (length P)])"

fun mkdir_each :: "'fs sys \<Rightarrow> 'fs \<Rightarrow> 32 word \<Rightarrow> string list \<Rightarrow> string option \<times> 'fs" where
  "mkdir_each sys fs mode [] = (None, fs)"
| "mkdir_each sys fs mode (p # ps) =
     (case sys_mkdir sys fs p mode of
        (None, fs') \<Rightarrow> mkdir_each sys fs' mode ps
      | (Some e, fs') \<Rightarrow>
          if e = EEXIST then mkdir_each sys fs' mode ps
          else (Some (mkdir_msg sys p e), fs'))"


section \<open>What one iteration emits\<close>

text \<open>
  For the proofs, one iteration of the loop body is summarised by the new \<open>i\<close>, the new
  \<open>skipnext\<close> and the text it appends to the output; \<open>getval\<close> is the text that
  \<open>getenv\<close> contributes, nothing for an unset variable.  Both passes are then related
  to the text \<open>outp\<close> emitted from a given position on.
\<close>

definition getval :: "env \<Rightarrow> string \<Rightarrow> string" where
  "getval e v = (case e v of None \<Rightarrow> [] | Some t \<Rightarrow> cstr t)"

definition act :: "env \<Rightarrow> string \<Rightarrow> nat \<Rightarrow> bool \<Rightarrow> nat \<times> bool \<times> string" where
  "act e str i sk =
     (if c_at str i = BSL \<and> (c_at str (i + 1) = CHR ''$'' \<or> c_at str (i + 1) = CHR ''~'') then
        (i, True, [])
      else if \<not> sk \<and> c_at str i = CHR ''$'' then
        (case dollar str i of
           (elen, varname, i') \<Rightarrow> (i', sk, if elen > 0 then getval e varname else []))
      else if \<not> sk \<and> c_at str i = CHR ''~'' then (i, sk, getval e ''HOME'')
      else (i, False, [c_at str i]))"

lemma act_i: "act e str i sk = (i', sk', em) \<Longrightarrow> i \<le> i'"
  by (auto simp: act_def split: if_splits prod.splits dest: dollar_i)

function outp :: "env \<Rightarrow> string \<Rightarrow> nat \<Rightarrow> bool \<Rightarrow> string" where
  "outp e str i sk =
     (if c_at str i = NUL then []
      else snd (snd (act e str i sk)) @ outp e str (fst (act e str i sk) + 1) (fst (snd (act e str i sk))))"
  by pat_completeness auto
termination
proof (relation "measure (\<lambda>(e, str, i, sk). length str - i)", goal_cases)
  case 1
  show ?case by simp
next
  case (2 e str i sk)
  from 2 have "i < length str" by (simp add: c_at_def split: if_splits)
  moreover have "i \<le> fst (act e str i sk)" using act_i[of e str i sk] by (cases "act e str i sk") simp
  ultimately show ?case by simp
qed

declare outp.simps [simp del]

lemma put_env_count:
  "put_env e False v s = Inr (s\<lparr>st_j := st_j s + length (getval e v)\<rparr>)"
  by (simp add: put_env_def getval_def strlen_def split: option.splits)

lemma body_count:
  "act e str (st_i s) (skipnext s) = (i', sk', em) \<Longrightarrow>
   body e False str s = Inr (s\<lparr>st_i := i', st_j := st_j s + length em, skipnext := sk'\<rparr>)"
  by (auto simp: body_def act_def Let_def put_env_count split: if_splits prod.splits)


lemma outp_unfold:
  "c_at str i \<noteq> NUL \<Longrightarrow> act e str i sk = (i', sk', em) \<Longrightarrow>
   outp e str i sk = em @ outp e str (i' + 1) sk'"
  by (subst outp.simps) simp

lemma outp_end: "c_at str i = NUL \<Longrightarrow> outp e str i sk = []"
  by (subst outp.simps) simp

lemma pokes_ok:
  "k + length cs \<le> length d \<Longrightarrow>
   pokes d k cs = Inr (take k d @ map Some cs @ drop (k + length cs) d)"
proof (induction cs arbitrary: d k)
  case Nil
  then show ?case by simp
next
  case (Cons c cs)
  from Cons.prems have k: "k < length d" by simp
  have "pokes (d[k := Some c]) (Suc k) cs =
        Inr (take (Suc k) (d[k := Some c]) @ map Some cs @ drop (Suc k + length cs) (d[k := Some c]))"
    using Cons.prems by (intro Cons.IH) simp
  with k show ?case
    by (simp add: poke_def take_Suc_conv_app_nth)
qed

lemma put_env_copy:
  assumes "st_j s + length (getval e v) < length (dest s)"
  shows "\<exists>s2. put_env e True v s = Inr s2
           \<and> st_i s2 = st_i s \<and> skipnext s2 = skipnext s
           \<and> st_j s2 = st_j s + length (getval e v)
           \<and> length (dest s2) = length (dest s)
           \<and> take (st_j s2) (dest s2) = take (st_j s) (dest s) @ map Some (getval e v)"
proof (cases "e v")
  case None
  then show ?thesis by (simp add: put_env_def getval_def)
next
  case (Some t)
  from assms Some have room: "st_j s + length (cstr t @ [NUL]) \<le> length (dest s)"
    by (simp add: getval_def)
  show ?thesis
    using assms Some pokes_ok[OF room]
    by (simp add: put_env_def getval_def sprintf_s_def strlen_def)
qed

lemma body_copy:
  assumes a: "act e str (st_i s) (skipnext s) = (i', sk', em)"
    and room: "st_j s + length em < length (dest s)"
  shows "\<exists>s2. body e True str s = Inr s2
           \<and> st_i s2 = i' \<and> skipnext s2 = sk'
           \<and> st_j s2 = st_j s + length em
           \<and> length (dest s2) = length (dest s)
           \<and> take (st_j s2) (dest s2) = take (st_j s) (dest s) @ map Some em"
proof -
  let ?i = "st_i s"
  consider (esc) "c_at str ?i = BSL \<and> (c_at str (?i + 1) = CHR ''$'' \<or> c_at str (?i + 1) = CHR ''~'')"
    | (dol) "\<not> (c_at str ?i = BSL \<and> (c_at str (?i + 1) = CHR ''$'' \<or> c_at str (?i + 1) = CHR ''~''))"
            "\<not> skipnext s" "c_at str ?i = CHR ''$''"
    | (til) "\<not> (c_at str ?i = BSL \<and> (c_at str (?i + 1) = CHR ''$'' \<or> c_at str (?i + 1) = CHR ''~''))"
            "\<not> skipnext s" "c_at str ?i = CHR ''~''"
    | (lit) "\<not> (c_at str ?i = BSL \<and> (c_at str (?i + 1) = CHR ''$'' \<or> c_at str (?i + 1) = CHR ''~''))"
            "\<not> (\<not> skipnext s \<and> c_at str ?i = CHR ''$'')" "\<not> (\<not> skipnext s \<and> c_at str ?i = CHR ''~'')"
    by blast
  then show ?thesis
  proof cases
    case esc
    with a show ?thesis by (auto simp: body_def act_def BSL_def)
  next
    case dol
    obtain elen v i2 where d: "dollar str ?i = (elen, v, i2)" by (cases "dollar str ?i") auto
    show ?thesis
    proof (cases "elen > 0")
      case True
      with a dol d have em: "em = getval e v" "i' = i2" "sk' = skipnext s"
        by (auto simp: act_def BSL_def)
      from put_env_copy[of "s\<lparr>st_i := i2\<rparr>" e v] room em
      show ?thesis using dol d True by (auto simp: body_def BSL_def)
    next
      case False
      with a dol d show ?thesis by (auto simp: body_def act_def BSL_def)
    qed
  next
    case til
    with a have em: "em = getval e ''HOME''" "i' = ?i" "sk' = skipnext s"
      by (auto simp: act_def BSL_def)
    from put_env_copy[of s e "''HOME''"] room em
    show ?thesis using til by (auto simp: body_def BSL_def)
  next
    case lit
    with a have em: "em = [c_at str ?i]" "i' = ?i" "sk' = False"
      by (auto simp: act_def BSL_def)
    with room lit show ?thesis
      by (auto simp: body_def BSL_def poke_def take_Suc_conv_app_nth)
  qed
qed


definition esc_ok :: "string \<Rightarrow> nat \<Rightarrow> bool \<Rightarrow> bool" where
  "esc_ok str i sk = (sk \<longrightarrow> c_at str i = CHR ''$'' \<or> c_at str i = CHR ''~'')"

lemma act_esc_ok:
  "esc_ok str i sk \<Longrightarrow> act e str i sk = (i', sk', em) \<Longrightarrow> esc_ok str (i' + 1) sk'"
  by (auto simp: esc_ok_def act_def BSL_def split: if_splits prod.splits)

lemma esc_ok_end: "esc_ok str i sk \<Longrightarrow> c_at str i = NUL \<Longrightarrow> \<not> sk"
  by (auto simp: esc_ok_def NUL_def)

lemma loop_count:
  "\<not> pass \<Longrightarrow>
   \<exists>s'. for_loop e pass str s = Inr s'
       \<and> st_j s' = st_j s + length (outp e str (st_i s) (skipnext s))
       \<and> dest s' = dest s
       \<and> (esc_ok str (st_i s) (skipnext s) \<longrightarrow> \<not> skipnext s')"
proof (induction e pass str s rule: for_loop.induct)
  case (1 e pass str s)
  show ?case
  proof (cases "c_at str (st_i s) = NUL")
    case True
    then show ?thesis
      by (subst for_loop.simps) (auto simp: outp_end dest: esc_ok_end)
  next
    case False
    obtain i' sk' em where a: "act e str (st_i s) (skipnext s) = (i', sk', em)"
      by (cases "act e str (st_i s) (skipnext s)") auto
    let ?s2 = "s\<lparr>st_i := i', st_j := st_j s + length em, skipnext := sk'\<rparr>"
    from 1(2) have b: "body e pass str s = Inr ?s2"
      using body_count[OF a] by simp
    from "1.IH"[OF False b 1(2)] obtain s' where
      s': "for_loop e pass str (?s2\<lparr>st_i := st_i ?s2 + 1\<rparr>) = Inr s'"
          "st_j s' = st_j s + length em + length (outp e str (i' + 1) sk')"
          "dest s' = dest s"
          "esc_ok str (i' + 1) sk' \<longrightarrow> \<not> skipnext s'"
      by auto
    have "for_loop e pass str s = Inr s'"
      using False b s'(1) by (subst for_loop.simps) simp
    moreover have "outp e str (st_i s) (skipnext s) = em @ outp e str (i' + 1) sk'"
      using False a by (rule outp_unfold)
    ultimately show ?thesis
      using s' act_esc_ok[OF _ a] by auto
  qed
qed

lemma loop_copy:
  "pass \<Longrightarrow> st_j s + length (outp e str (st_i s) (skipnext s)) < length (dest s) \<Longrightarrow>
   \<exists>s'. for_loop e pass str s = Inr s'
       \<and> st_j s' = st_j s + length (outp e str (st_i s) (skipnext s))
       \<and> length (dest s') = length (dest s)
       \<and> take (st_j s') (dest s') = take (st_j s) (dest s) @ map Some (outp e str (st_i s) (skipnext s))"
proof (induction e pass str s rule: for_loop.induct)
  case (1 e pass str s)
  show ?case
  proof (cases "c_at str (st_i s) = NUL")
    case True
    then show ?thesis
      by (subst for_loop.simps) (auto simp: outp_end)
  next
    case False
    obtain i' sk' em where a: "act e str (st_i s) (skipnext s) = (i', sk', em)"
      by (cases "act e str (st_i s) (skipnext s)") auto
    have o: "outp e str (st_i s) (skipnext s) = em @ outp e str (i' + 1) sk'"
      using False a by (rule outp_unfold)
    with 1(3) have room: "st_j s + length em < length (dest s)" by simp
    from body_copy[OF a room] 1(2) obtain s2 where
      s2: "body e pass str s = Inr s2" "st_i s2 = i'" "skipnext s2 = sk'"
          "st_j s2 = st_j s + length em" "length (dest s2) = length (dest s)"
          "take (st_j s2) (dest s2) = take (st_j s) (dest s) @ map Some em"
      by auto
    let ?s3 = "s2\<lparr>st_i := st_i s2 + 1\<rparr>"
    have room': "st_j ?s3 + length (outp e str (st_i ?s3) (skipnext ?s3)) < length (dest ?s3)"
      using 1(3) o s2 by simp
    from "1.IH"[OF False s2(1) 1(2) room'] obtain s' where
      s': "for_loop e pass str ?s3 = Inr s'"
          "st_j s' = st_j ?s3 + length (outp e str (st_i ?s3) (skipnext ?s3))"
          "length (dest s') = length (dest ?s3)"
          "take (st_j s') (dest s') = take (st_j ?s3) (dest ?s3) @ map Some (outp e str (st_i ?s3) (skipnext ?s3))"
      by auto
    have "for_loop e pass str s = Inr s'"
      using False s2(1) s'(1) by (subst for_loop.simps) simp
    then show ?thesis
      using s' s2 o by simp
  qed
qed

lemma cstr_no_NUL: "NUL \<notin> set (cstr t)"
  by (auto simp: cstr_def dest: set_takeWhileD)

lemma act_no_NUL:
  "c_at str i \<noteq> NUL \<Longrightarrow> act e str i sk = (i', sk', em) \<Longrightarrow> NUL \<notin> set em"
  by (auto simp: act_def getval_def cstr_no_NUL split: if_splits prod.splits option.splits)

lemma outp_no_NUL: "NUL \<notin> set (outp e str i sk)"
proof (induction e str i sk rule: outp.induct)
  case (1 e str i sk)
  show ?case
  proof (cases "c_at str i = NUL")
    case True
    then show ?thesis by (simp add: outp_end)
  next
    case False
    obtain i' sk' em where a: "act e str i sk = (i', sk', em)"
      by (cases "act e str i sk") auto
    from "1.IH"[OF False] a have "NUL \<notin> set (outp e str (i' + 1) sk')" by simp
    with act_no_NUL[OF False a] outp_unfold[OF False a] show ?thesis by simp
  qed
qed

lemma c_string_terminated:
  "NUL \<notin> set xs \<Longrightarrow> c_string (map Some xs @ Some NUL # r) = Inr xs"
  by (induction xs) auto

lemma expand_result: "expand_envstrings e str = Inr (outp e str 0 False)"
proof -
  let ?out = "outp e str 0 False"
  let ?s = "\<lparr>st_i = 0, st_j = 0, skipnext = False, dest = []\<rparr>"
  from loop_count[of False e str ?s] obtain s0 where
    s0: "for_loop e False str ?s = Inr s0" "st_j s0 = length ?out" "\<not> skipnext s0"
    by (auto simp: esc_ok_def)
  let ?t = "\<lparr>st_i = 0, st_j = 0, skipnext = False, dest = smalloc (length ?out + 1)\<rparr>"
  from loop_copy[of True ?t e str] obtain s1 where
    s1: "for_loop e True str ?t = Inr s1" "st_j s1 = length ?out"
        "length (dest s1) = length ?out + 1"
        "take (length ?out) (dest s1) = map Some ?out"
    by (auto simp: smalloc_def)
  have "(dest s1)[length ?out := Some NUL] = map Some ?out @ [Some NUL]"
    using s1(3,4) by (simp add: upd_conv_take_nth_drop)
  then have "c_string ((dest s1)[length ?out := Some NUL]) = Inr ?out"
    using c_string_terminated[OF outp_no_NUL, of e str 0 False "[]"] by simp
  then show ?thesis
    using s0 s1 by (simp add: expand_envstrings_def poke_def)
qed

lemma outp_plain:
  "\<not> sk \<Longrightarrow> \<forall>c\<in>set (drop i S). c \<noteq> NUL \<and> c \<noteq> CHR ''$'' \<and> c \<noteq> CHR ''~'' \<and> c \<noteq> BSL \<Longrightarrow>
   outp e S i sk = drop i S"
proof (induction e S i sk rule: outp.induct)
  case (1 e S i sk)
  show ?case
  proof (cases "i < length S")
    case False
    then show ?thesis by (simp add: outp_end c_at_def)
  next
    case True
    then have d: "drop i S = S ! i # drop (Suc i) S"
      by (simp add: Cons_nth_drop_Suc)
    with "1.prems"(2) have pl: "S ! i \<noteq> NUL" "S ! i \<noteq> CHR ''$''" "S ! i \<noteq> CHR ''~''" "S ! i \<noteq> BSL"
      and rest: "\<forall>c\<in>set (drop (Suc i) S). c \<noteq> NUL \<and> c \<noteq> CHR ''$'' \<and> c \<noteq> CHR ''~'' \<and> c \<noteq> BSL"
      by auto
    from True pl have nz: "c_at S i \<noteq> NUL" by (simp add: c_at_def)
    from True pl have a: "act e S i sk = (i, False, [S ! i])"
      by (simp add: act_def c_at_def)
    from "1.IH"[OF nz] a rest have "outp e S (Suc i) False = drop (Suc i) S" by simp
    with outp_unfold[OF nz a] d show ?thesis by simp
  qed
qed

lemma dollar_name:
  assumes "isalpha (c_at str (i + 1)) \<or> c_at str (i + 1) = CHR ''_''"
    and "name = takeWhile (\<lambda>c. isalnum c \<or> c = CHR ''_'') (drop (i + 1) str)"
  shows "dollar str i = (int (length name), name, i + length name) \<and> name \<noteq> []"
proof -
  let ?nc = "\<lambda>c. isalnum c \<or> c = CHR ''_''"
  from assms(1) have nz: "c_at str (i + 1) \<noteq> NUL" and nb: "c_at str (i + 1) \<noteq> CHR ''{''"
    by (auto simp: isalpha_def NUL_def)
  from nz have lt: "i + 1 < length str" by (simp add: c_at_def split: if_splits)
  then have d: "drop (i + 1) str = str ! (i + 1) # drop (i + 2) str"
    using Cons_nth_drop_Suc[of "i + 1" str] by simp
  from assms(1) lt have nc: "?nc (str ! (i + 1))"
    by (auto simp: c_at_def isalnum_def)
  from d nc assms(2) have n: "name = str ! (i + 1) # takeWhile ?nc (drop (i + 2) str)"
    by simp
  then have len: "name_elen str i = length name"
    by (simp add: name_elen_def)
  have "take (length name) (drop (i + 1) str) = name"
    unfolding assms(2) by (rule takeWhile_eq_take[symmetric])
  with nb assms(1) len n show ?thesis
    by (simp add: dollar_def Let_def)
qed

lemma dollar_brace:
  assumes "c_at str (i + 1) = CHR ''{''"
    and "drop (i + 2) str = name @ CHR ''}'' # rest"
    and "CHR ''}'' \<notin> set name" and "NUL \<notin> set name"
  shows "dollar str i = (int (length name), name, i + (length name + 2))"
proof -
  have "cstr (name @ CHR ''}'' # rest) = name @ CHR ''}'' # cstr rest"
  proof -
    have "takeWhile (\<lambda>c. c \<noteq> NUL) (name @ CHR ''}'' # rest) = name @ takeWhile (\<lambda>c. c \<noteq> NUL) (CHR ''}'' # rest)"
      using assms(4) by (intro takeWhile_append2) auto
    then show ?thesis by (simp add: cstr_def NUL_def)
  qed
  moreover have "takeWhile (\<lambda>x. x \<noteq> CHR ''}'') (name @ CHR ''}'' # cstr rest) = name"
    using assms(3) by (subst takeWhile_append2) auto
  ultimately have "strchr str (i + 2) (CHR ''}'') = Some (length name)"
    using assms(2) by (simp add: strchr_def)
  with assms(1,2) show ?thesis
    by (simp add: dollar_def)
qed

text \<open>
  The text that the expansion of a string consists of.  It depends on the suffix read
  only, obeys one equation for each way a string can start, and splits at every byte
  that is neither escaped nor inside braces and holds \<open>$\<close>, \<open>~\<close> or a backslash.
\<close>

definition expansion :: "env \<Rightarrow> string \<Rightarrow> string" where
  "expansion e s = outp e s 0 False"

lemma c_at_drop: "c_at (drop i s) k = c_at s (i + k)"
  by (auto simp: c_at_def)

lemma dollar_shift:
  "dollar str i = (case dollar (drop i str) 0 of (el, v, i') \<Rightarrow> (el, v, i + i'))"
  by (simp add: dollar_def c_at_drop strchr_def name_elen_def Let_def add.commute
           split: option.splits)

lemma act_shift:
  "act e str i sk = (case act e (drop i str) 0 sk of (i', sk', em) \<Rightarrow> (i + i', sk', em))"
  using dollar_shift[of str i]
  by (auto simp: act_def c_at_drop split: prod.splits)

lemma outp_shift: "outp e str i sk = outp e (drop i str) 0 sk"
proof (induction "length str - i" arbitrary: str i sk rule: less_induct)
  case less
  show ?case
  proof (cases "c_at str i = NUL")
    case True
    then have "c_at (drop i str) 0 = NUL" by (simp add: c_at_drop)
    with True show ?thesis by (simp add: outp_end)
  next
    case False
    then have lt: "i < length str" by (simp add: c_at_def split: if_splits)
    from False have nz: "c_at (drop i str) 0 \<noteq> NUL" by (simp add: c_at_drop)
    obtain i0 sk' em where a0: "act e (drop i str) 0 sk = (i0, sk', em)"
      by (cases "act e (drop i str) 0 sk") auto
    with act_shift[of e str i sk] have a: "act e str i sk = (i + i0, sk', em)" by simp
    have 1: "outp e str (i + i0 + 1) sk' = outp e (drop (i + i0 + 1) str) 0 sk'"
      using lt by (intro less) simp
    have 2: "outp e (drop i str) (i0 + 1) sk' = outp e (drop (i0 + 1) (drop i str)) 0 sk'"
      using lt by (intro less) simp
    from outp_unfold[OF False a] outp_unfold[OF nz a0] 1 2 show ?thesis
      by (simp add: add.commute add.left_commute)
  qed
qed

lemma expand_expansion: "expand_envstrings e s = Inr (expansion e s)"
  by (simp add: expansion_def expand_result)

lemma nc_plain:
  "isalnum c \<or> c = CHR ''_'' \<Longrightarrow>
   c \<noteq> BSL \<and> c \<noteq> CHR ''$'' \<and> c \<noteq> CHR ''~'' \<and> c \<noteq> CHR ''{'' \<and> c \<noteq> NUL"
  by (auto simp: isalnum_def isalpha_def BSL_def NUL_def)

lemma exp_Nil: "expansion e [] = []"
  by (simp add: expansion_def outp_end c_at_def)

lemma exp_esc:
  assumes "c = CHR ''$'' \<or> c = CHR ''~''"
  shows "expansion e (BSL # c # s) = c # expansion e s"
proof -
  let ?str = "BSL # c # s"
  have nz0: "c_at ?str 0 \<noteq> NUL" by (simp add: c_at_def BSL_def NUL_def)
  have a0: "act e ?str 0 False = (0, True, [])"
    using assms by (auto simp: act_def c_at_def)
  have nz1: "c_at ?str 1 \<noteq> NUL" using assms by (auto simp: c_at_def NUL_def)
  have a1: "act e ?str 1 True = (1, False, [c])"
    using assms by (auto simp: act_def c_at_def BSL_def)
  from outp_unfold[OF nz0 a0] outp_unfold[OF nz1 a1] outp_shift[of e ?str "Suc (Suc 0)" False]
  show ?thesis by (simp add: expansion_def)
qed

lemma exp_tilde: "expansion e (CHR ''~'' # s) = getval e ''HOME'' @ expansion e s"
proof -
  let ?str = "CHR ''~'' # s"
  have nz0: "c_at ?str 0 \<noteq> NUL" by (simp add: c_at_def NUL_def)
  have a0: "act e ?str 0 False = (0, False, getval e ''HOME'')"
    by (auto simp: act_def c_at_def BSL_def)
  from outp_unfold[OF nz0 a0] outp_shift[of e ?str 1 False]
  show ?thesis by (simp add: expansion_def)
qed

lemma exp_brace:
  assumes "CHR ''}'' \<notin> set name" and "NUL \<notin> set name"
  shows "expansion e (CHR ''$'' # CHR ''{'' # name @ CHR ''}'' # rest)
         = (if name = [] then [] else getval e name) @ expansion e rest"
proof -
  let ?str = "CHR ''$'' # CHR ''{'' # name @ CHR ''}'' # rest"
  have nz0: "c_at ?str 0 \<noteq> NUL" by (simp add: c_at_def NUL_def)
  have "dollar ?str 0 = (int (length name), name, 0 + (length name + 2))"
    using assms by (intro dollar_brace) (simp_all add: c_at_def)
  then have a0: "act e ?str 0 False
      = (length name + 2, False, if name = [] then [] else getval e name)"
    by (auto simp: act_def c_at_def BSL_def)
  from outp_unfold[OF nz0 a0] outp_shift[of e ?str "length name + 2 + 1" False]
  show ?thesis by (simp add: expansion_def)
qed

lemma exp_name:
  assumes "isalpha c \<or> c = CHR ''_''"
    and "name = takeWhile (\<lambda>c. isalnum c \<or> c = CHR ''_'') (c # s)"
  shows "expansion e (CHR ''$'' # c # s)
         = getval e name @ expansion e (dropWhile (\<lambda>c. isalnum c \<or> c = CHR ''_'') (c # s))"
proof -
  let ?str = "CHR ''$'' # c # s"
  have nz0: "c_at ?str 0 \<noteq> NUL" by (simp add: c_at_def NUL_def)
  have "dollar ?str 0 = (int (length name), name, 0 + length name) \<and> name \<noteq> []"
    using assms by (intro dollar_name) (simp_all add: c_at_def)
  then have a0: "act e ?str 0 False = (length name, False, getval e name)"
    by (auto simp: act_def c_at_def BSL_def)
  have "drop (length name + 1) ?str = dropWhile (\<lambda>c. isalnum c \<or> c = CHR ''_'') (c # s)"
    unfolding assms(2) by (simp add: dropWhile_eq_drop)
  with outp_unfold[OF nz0 a0] outp_shift[of e ?str "length name + 1" False]
  show ?thesis by (simp add: expansion_def)
qed

lemma exp_dollar:
  assumes "NUL \<notin> set s"
    and "\<not> (s \<noteq> [] \<and> hd s = CHR ''{'' \<and> CHR ''}'' \<in> set (tl s))"
    and "\<not> (s \<noteq> [] \<and> (isalpha (hd s) \<or> hd s = CHR ''_''))"
  shows "expansion e (CHR ''$'' # s) = expansion e s"
proof -
  let ?str = "CHR ''$'' # s"
  have nz0: "c_at ?str 0 \<noteq> NUL" by (simp add: c_at_def NUL_def)
  have c1: "c_at ?str 1 = (if s = [] then NUL else hd s)"
    by (cases s) (simp_all add: c_at_def)
  have na: "\<not> isalpha NUL" "NUL \<noteq> CHR ''_''" "NUL \<noteq> CHR ''{''"
    by (simp_all add: isalpha_def NUL_def)
  have "cstr (drop 2 ?str) = tl s"
    using assms(1) by (cases s) (auto simp: cstr_def)
  then have "(if c_at ?str (0 + 1) = CHR ''{'' then strchr ?str (0 + 2) (CHR ''}'') else None) = None"
    using assms(2) c1 na by (auto simp: strchr_def)
  then have "dollar ?str 0 = (- 1, [], 0)"
    using assms(3) c1 na by (auto simp: dollar_def)
  then have a0: "act e ?str 0 False = (0, False, [])"
    by (auto simp: act_def c_at_def BSL_def)
  from outp_unfold[OF nz0 a0] outp_shift[of e ?str 1 False]
  show ?thesis by (simp add: expansion_def)
qed

lemma exp_lit:
  assumes "c \<noteq> NUL" and "c \<noteq> CHR ''$''" and "c \<noteq> CHR ''~''"
    and "\<not> (c = BSL \<and> s \<noteq> [] \<and> (hd s = CHR ''$'' \<or> hd s = CHR ''~''))"
  shows "expansion e (c # s) = c # expansion e s"
proof -
  let ?str = "c # s"
  have nz0: "c_at ?str 0 \<noteq> NUL" using assms(1) by (simp add: c_at_def)
  have c1: "c_at ?str 1 = (if s = [] then NUL else hd s)"
    by (cases s) (simp_all add: c_at_def)
  have a0: "act e ?str 0 False = (0, False, [c])"
    using assms c1 by (auto simp: act_def c_at_def NUL_def)
  from outp_unfold[OF nz0 a0] outp_shift[of e ?str 1 False]
  show ?thesis by (simp add: expansion_def)
qed

lemma marks_braces:
  "CHR ''}'' \<notin> set name \<Longrightarrow>
   marks InBraces (name @ CHR ''}'' # s) = replicate (length name + 1) False @ marks Scan s"
  by (induction name) auto

lemma marks_plain:
  "\<forall>c\<in>set xs. c \<noteq> BSL \<and> c \<noteq> CHR ''$'' \<Longrightarrow>
   marks Scan (xs @ s) = replicate (length xs) True @ marks Scan s"
  by (induction xs) auto

lemma prefix_cut:
  "pre @ t = F @ s3 \<Longrightarrow> length F \<le> length pre \<Longrightarrow> \<exists>pre3. pre = F @ pre3 \<and> s3 = pre3 @ t"
  by (auto simp: append_eq_append_conv2)


lemma expansion_split:
  "NUL \<notin> set (pre @ x # rest) \<Longrightarrow> x = CHR ''$'' \<or> x = CHR ''~'' \<or> x = BSL \<Longrightarrow>
   marks Scan (pre @ x # rest) ! length pre \<Longrightarrow>
   expansion e (pre @ x # rest) = expansion e pre @ expansion e (x # rest)"
proof (induction "length pre" arbitrary: pre rule: less_induct)
  case less
  let ?nc = "\<lambda>c. isalnum c \<or> c = CHR ''_''"
  note nul = less.prems(1) and sp = less.prems(2) and mk = less.prems(3)
  from sp have xnc: "\<not> ?nc x" using nc_plain[of x] by auto
  show ?case
  proof (cases pre)
    case Nil
    then show ?thesis by (simp add: exp_Nil)
  next
    case (Cons c pre2)
    define s2 where "s2 = pre2 @ x # rest"
    have s2ne: "s2 \<noteq> []" by (simp add: s2_def)
    have hd2: "pre2 \<noteq> [] \<Longrightarrow> hd s2 = hd pre2" by (simp add: s2_def)
    have s: "pre @ x # rest = c # s2" by (simp add: Cons s2_def)
    from nul s have nul2: "NUL \<notin> set s2" and cnz: "c \<noteq> NUL" by auto
    from mk have mk': "marks Scan (c # s2) ! length pre" unfolding s .
    have lp: "length pre = Suc (length pre2)" by (simp add: Cons)
    have step: "expansion e (pre2 @ x # rest) = expansion e pre2 @ expansion e (x # rest)"
      if "marks Scan s2 ! length pre2"
      using that nul2 sp unfolding s2_def by (intro less.hyps) (simp_all add: Cons)
    consider (esc) "c = BSL" "hd s2 = CHR ''$'' \<or> hd s2 = CHR ''~''"
      | (brace) "c = CHR ''$''" "hd s2 = CHR ''{''" "CHR ''}'' \<in> set (tl s2)"
      | (tilde) "c = CHR ''~''"
      | (name) "c = CHR ''$''" "\<not> (hd s2 = CHR ''{'' \<and> CHR ''}'' \<in> set (tl s2))"
               "isalpha (hd s2) \<or> hd s2 = CHR ''_''"
      | (dollar) "c = CHR ''$''" "\<not> (hd s2 = CHR ''{'' \<and> CHR ''}'' \<in> set (tl s2))"
               "\<not> (isalpha (hd s2) \<or> hd s2 = CHR ''_'')"
      | (lit) "c \<noteq> CHR ''$''" "c \<noteq> CHR ''~''"
              "\<not> (c = BSL \<and> (hd s2 = CHR ''$'' \<or> hd s2 = CHR ''~''))"
      by blast
    then show ?thesis
    proof cases
      case esc
      from esc s2ne have m: "marks Scan (c # s2) = True # False # marks Scan (tl s2)"
        by (cases s2) (auto simp: BSL_def)
      show ?thesis
      proof (cases pre2)
        case Nil
        with mk'[unfolded m] lp show ?thesis by simp
      next
        case (Cons c2 pre3)
        with esc have c2: "c2 = CHR ''$'' \<or> c2 = CHR ''~''" by (simp add: s2_def)
        from Cons have t: "tl s2 = pre3 @ x # rest" by (simp add: s2_def)
        from mk'[unfolded m] lp Cons t have "marks Scan (pre3 @ x # rest) ! length pre3"
          by simp
        moreover from nul2 t have "NUL \<notin> set (pre3 @ x # rest)"
          by (metis list.set_sel(2) s2ne)
        ultimately have "expansion e (pre3 @ x # rest) = expansion e pre3 @ expansion e (x # rest)"
          using sp by (intro less.hyps) (simp_all add: \<open>pre = c # pre2\<close> Cons)
        with esc(1) c2 \<open>pre = c # pre2\<close> Cons show ?thesis
          by (simp add: exp_esc)
      qed
    next
      case brace
      from brace(3) obtain name s3 where sp3: "tl s2 = name @ CHR ''}'' # s3" "CHR ''}'' \<notin> set name"
        by (auto dest: split_list_first)
      with brace(2) s2ne have s2e: "s2 = CHR ''{'' # name @ CHR ''}'' # s3"
        by (cases s2) auto
      let ?F = "CHR ''$'' # CHR ''{'' # name @ [CHR ''}'']"
      from nul2 s2e have nuln: "NUL \<notin> set name" and nul3: "NUL \<notin> set s3" by auto
      have m: "marks Scan (c # s2) = True # False # replicate (length name + 1) False @ marks Scan s3"
        using brace(1) s2e sp3(2) by (simp add: marks_braces BSL_def)
      have len: "length ?F \<le> length pre"
      proof (rule ccontr)
        assume "\<not> length ?F \<le> length pre"
        then have "length pre < length name + 3" by simp
        moreover have "0 < length pre" by (simp add: Cons)
        ultimately have "\<not> (True # False # replicate (length name + 1) False @ marks Scan s3) ! length pre"
          by (cases "length pre") (auto simp: nth_Cons' nth_append)
        with mk'[unfolded m] show False by simp
      qed
      have "pre @ x # rest = ?F @ s3" using s s2e brace(1) by simp
      from prefix_cut[OF this len] obtain pre3 where
        p3: "pre = ?F @ pre3" "s3 = pre3 @ x # rest" by blast
      from mk'[unfolded m] p3 have "marks Scan (pre3 @ x # rest) ! length pre3"
        by (simp add: nth_append nth_Cons')
      moreover from nul3 p3 have "NUL \<notin> set (pre3 @ x # rest)" by simp
      ultimately have "expansion e (pre3 @ x # rest) = expansion e pre3 @ expansion e (x # rest)"
        using sp by (intro less.hyps) (simp_all add: p3)
      with p3 sp3(2) nuln show ?thesis
        by (simp add: exp_brace)
    next
      case tilde
      then have "marks Scan (c # s2) = True # marks Scan s2" by (simp add: BSL_def)
      with mk' lp have "marks Scan s2 ! length pre2" by simp
      from step[OF this] tilde Cons show ?thesis by (simp add: exp_tilde)
    next
      case name
      define nm where "nm = takeWhile ?nc s2"
      define s3 where "s3 = dropWhile ?nc s2"
      have s23: "s2 = nm @ s3" by (simp add: nm_def s3_def)
      from name(3) s2ne have nc_hd: "?nc (hd s2)" by (auto simp: isalnum_def)
      have nmnc: "\<forall>c\<in>set nm. ?nc c" by (auto simp: nm_def dest: set_takeWhileD)
      have len: "length nm \<le> length pre2"
      proof (rule ccontr)
        assume "\<not> length nm \<le> length pre2"
        then have lt: "length pre2 < length nm" by simp
        then have "nm ! length pre2 = s2 ! length pre2" by (simp add: s23 nth_append)
        also have "\<dots> = x" by (simp add: s2_def)
        finally have "x \<in> set nm" using lt by (metis nth_mem)
        with nmnc xnc show False by blast
      qed
      have "pre2 @ x # rest = nm @ s3" using s23 by (simp add: s2_def)
      from prefix_cut[OF this len] obtain pre3 where
        p3: "pre2 = nm @ pre3" "s3 = pre3 @ x # rest" by blast
      from nc_hd s2ne have nmne: "nm \<noteq> []" by (cases s2) (auto simp: nm_def)
      from nmnc have plain: "\<forall>c\<in>set nm. c \<noteq> BSL \<and> c \<noteq> CHR ''$''"
        using nc_plain by blast
      from name(1,2) s2ne have "marks Scan (c # s2) = True # marks Scan s2"
        by (auto simp: BSL_def)
      also have "marks Scan s2 = replicate (length nm) True @ marks Scan s3"
        unfolding s23 by (rule marks_plain[OF plain])
      finally have m: "marks Scan (c # s2) = True # replicate (length nm) True @ marks Scan s3" .
      from mk'[unfolded m] lp p3 have "marks Scan (pre3 @ x # rest) ! length pre3"
        by (simp add: nth_append)
      moreover from nul2 s23 p3 have "NUL \<notin> set (pre3 @ x # rest)" by auto
      ultimately have ih: "expansion e (pre3 @ x # rest) = expansion e pre3 @ expansion e (x # rest)"
        using sp by (intro less.hyps) (simp_all add: Cons p3)
      obtain c2 t2 where s2c: "s2 = c2 # t2" using s2ne by (cases s2) auto
      with name(3) have al: "isalpha c2 \<or> c2 = CHR ''_''" by simp
      have e1: "expansion e (CHR ''$'' # s2) = getval e nm @ expansion e s3"
        unfolding s2c using exp_name[OF al, of nm t2 e] by (simp add: nm_def s3_def s2c)
      have tw: "takeWhile ?nc pre2 = nm \<and> dropWhile ?nc pre2 = pre3"
      proof (cases pre3)
        case Nil
        with p3 nmnc show ?thesis by simp
      next
        case (Cons d pre4)
        have "s3 \<noteq> []" using p3 by simp
        then have "\<not> ?nc (hd s3)" unfolding s3_def by (rule hd_dropWhile)
        with p3 Cons have "\<not> ?nc d" by simp
        with p3 Cons nmnc show ?thesis
          by (simp add: takeWhile_tail dropWhile_append3)
      qed
      obtain t3 where p2c: "pre2 = c2 # t3" using p3 nmne s2c s23 by (cases nm) auto
      have e2: "expansion e (CHR ''$'' # pre2) = getval e nm @ expansion e pre3"
        unfolding p2c using exp_name[OF al, of nm t3 e] tw by (simp add: p2c)
      from e1 e2 ih name(1) Cons p3 s2_def show ?thesis by simp
    next
      case dollar
      from dollar s2ne have "marks Scan (c # s2) = True # marks Scan s2"
        by (auto simp: BSL_def)
      with mk' lp have "marks Scan s2 ! length pre2" by simp
      note ih = step[OF this]
      have e1: "expansion e (CHR ''$'' # s2) = expansion e s2"
        using nul2 dollar(2,3) by (intro exp_dollar) auto
      have "NUL \<notin> set pre2" using nul2 by (simp add: s2_def)
      moreover have "\<not> (pre2 \<noteq> [] \<and> hd pre2 = CHR ''{'' \<and> CHR ''}'' \<in> set (tl pre2))"
      proof
        assume a: "pre2 \<noteq> [] \<and> hd pre2 = CHR ''{'' \<and> CHR ''}'' \<in> set (tl pre2)"
        then have "tl s2 = tl pre2 @ x # rest" by (simp add: s2_def)
        with a hd2 dollar(2) show False by auto
      qed
      moreover have "\<not> (pre2 \<noteq> [] \<and> (isalpha (hd pre2) \<or> hd pre2 = CHR ''_''))"
        using hd2 dollar(3) by auto
      ultimately have e2: "expansion e (CHR ''$'' # pre2) = expansion e pre2"
        by (rule exp_dollar)
      from e1 e2 ih dollar(1) Cons s2_def show ?thesis by simp
    next
      case lit
      from lit s2ne have "marks Scan (c # s2) = True # marks Scan s2"
        by auto
      with mk' lp have "marks Scan s2 ! length pre2" by simp
      note ih = step[OF this]
      have e1: "expansion e (c # s2) = c # expansion e s2"
        using cnz lit by (intro exp_lit) auto
      have e2: "expansion e (c # pre2) = c # expansion e pre2"
        using cnz lit hd2 by (intro exp_lit) auto
      from e1 e2 ih Cons s2_def show ?thesis by simp
    qed
  qed
qed

lemma marks_length: "length (marks m s) = length s"
  by (induction m s rule: marks.induct) auto

lemma marks_no_brace:
  "i < length s \<Longrightarrow> CHR ''{'' \<notin> set (take i s) \<Longrightarrow>
   s ! i = CHR ''$'' \<or> s ! i = CHR ''~'' \<or> s ! i = BSL \<Longrightarrow>
   (marks Scan s ! i \<longleftrightarrow> (i = 0 \<or> \<not> (s ! (i - 1) = BSL \<and> (s ! i = CHR ''$'' \<or> s ! i = CHR ''~''))))
   \<and> (0 < i \<longrightarrow> hd s \<noteq> BSL \<longrightarrow>
        (marks Escaped s ! i \<longleftrightarrow> \<not> (s ! (i - 1) = BSL \<and> (s ! i = CHR ''$'' \<or> s ! i = CHR ''~''))))"
proof (induction s arbitrary: i)
  case Nil
  then show ?case by simp
next
  case (Cons c s)
  show ?case
  proof (cases i)
    case 0
    then show ?thesis by simp
  next
    case (Suc k)
    from Cons.prems Suc have k: "k < length s" and nb: "CHR ''{'' \<notin> set (take k s)"
      and cb: "c \<noteq> CHR ''{''"
      and spk: "s ! k = CHR ''$'' \<or> s ! k = CHR ''~'' \<or> s ! k = BSL"
      by auto
    note IH = Cons.IH[OF k nb spk]
    from k have sne: "s \<noteq> []" by auto
    have hd0: "hd s = s ! 0" using sne by (simp add: hd_conv_nth)
    have nobrace: "\<not> (c = CHR ''$'' \<and> s \<noteq> [] \<and> hd s = CHR ''{'' \<and> CHR ''}'' \<in> set (tl s))"
    proof
      assume a: "c = CHR ''$'' \<and> s \<noteq> [] \<and> hd s = CHR ''{'' \<and> CHR ''}'' \<in> set (tl s)"
      show False
      proof (cases k)
        case 0
        with a hd0 spk show ?thesis by (auto simp: BSL_def)
      next
        case (Suc k')
        with a nb sne show ?thesis by (cases s) auto
      qed
    qed
    have esc: "marks Escaped (c # s) ! i = marks Scan s ! k" using Suc by simp
    have scan: "marks Scan (c # s) ! i =
        (if c = BSL \<and> (hd s = CHR ''$'' \<or> hd s = CHR ''~'') then marks Escaped s ! k
         else marks Scan s ! k)"
      using Suc sne nobrace by auto
    have prev: "(c # s) ! (i - 1) = (if k = 0 then c else s ! (k - 1))"
      using Suc by (cases k) auto
    have cur: "(c # s) ! i = s ! k" using Suc by simp
    show ?thesis
    proof (cases k)
      case 0
      have "\<not> marks Escaped s ! 0" using sne by (cases s) auto
      moreover have "marks Scan s ! 0" using sne by (cases s) auto
      ultimately show ?thesis
        using 0 Suc scan esc hd0 spk by (auto simp: BSL_def)
    next
      case (Suc k')
      have he: "c = BSL \<and> (hd s = CHR ''$'' \<or> hd s = CHR ''~'') \<Longrightarrow> hd s \<noteq> BSL"
        by (auto simp: BSL_def)
      from IH Suc he scan esc prev cur \<open>i = Suc k\<close> show ?thesis
        by auto
    qed
  qed
qed

lemma outside_no_brace:
  assumes "i < length str" and "CHR ''{'' \<notin> set (take i str)"
    and "str ! i = CHR ''$'' \<or> str ! i = CHR ''~'' \<or> str ! i = BSL"
    and "i = 0 \<or> \<not> (str ! (i - 1) = BSL \<and> (str ! i = CHR ''$'' \<or> str ! i = CHR ''~''))"
  shows "unescaped_outside_braces str i"
  using marks_no_brace[OF assms(1,2,3)] assms(1,4)
  by (simp add: unescaped_outside_braces_def)

lemma expand_at:
  assumes "NUL \<notin> set str" and "unescaped_outside_braces str i"
    and "str ! i = CHR ''$'' \<or> str ! i = CHR ''~'' \<or> str ! i = BSL"
  shows "expansion e str = expansion e (take i str) @ expansion e (drop i str)"
proof -
  from assms(2) have lt: "i < length str" and mk: "marks Scan str ! i"
    by (simp_all add: unescaped_outside_braces_def)
  from lt have d: "str = take i str @ str ! i # drop (Suc i) str"
    by (simp add: id_take_nth_drop[symmetric])
  have l: "length (take i str) = i" using lt by simp
  from expansion_split[of "take i str" "str ! i" "drop (Suc i) str" e] assms(1,3) mk d l
  have "expansion e str = expansion e (take i str) @ expansion e (str ! i # drop (Suc i) str)"
    by simp
  with lt show ?thesis by (simp add: Cons_nth_drop_Suc)
qed

lemma memchr_found:
  "NUL \<notin> set xs \<Longrightarrow> length xs < n \<Longrightarrow>
   memchr (map Some xs @ Some NUL # r) NUL n = Inr (Some (length xs))"
proof (induction xs arbitrary: n)
  case Nil
  then show ?case by (cases n) auto
next
  case (Cons x xs)
  then show ?case by (cases n) auto
qed

lemma memchr_none:
  "n \<le> length d \<Longrightarrow> None \<notin> set (take n d) \<Longrightarrow>
   (memchr d NUL n = Inr None \<longleftrightarrow> Some NUL \<notin> set (take n d))
   \<and> (\<exists>r. memchr d NUL n = Inr r)"
proof (induction d NUL n rule: memchr.induct)
  case (1 d)
  then show ?case by simp
next
  case (2 n)
  then show ?case by simp
next
  case (3 d n)
  then show ?case by simp
next
  case (4 x d n)
  show ?case
  proof (cases "x = NUL")
    case True
    then show ?thesis by simp
  next
    case False
    from 4(2,3) have "n \<le> length d" "None \<notin> set (take n d)" by auto
    from 4(1)[OF False this] False show ?thesis
      by (auto split: option.splits)
  qed
qed

lemma memchr_prefix:
  "memchr d NUL n = Inr (Some k) \<Longrightarrow>
   \<exists>xs r. d = map Some xs @ Some NUL # r \<and> NUL \<notin> set xs \<and> length xs = k \<and> k < n"
proof (induction d NUL n arbitrary: k rule: memchr.induct)
  case (1 d)
  then show ?case by simp
next
  case (2 n)
  then show ?case by simp
next
  case (3 d n)
  then show ?case by simp
next
  case (4 x d n)
  show ?case
  proof (cases "x = NUL")
    case True
    with 4(2) show ?thesis by (intro exI[of _ "[]"] exI[of _ d]) auto
  next
    case False
    with 4(2) obtain k' where k': "memchr d NUL n = Inr (Some k')" "k = Suc k'"
      by (auto split: sum.splits option.splits)
    from 4(1)[OF False k'(1)] obtain xs r where
      "d = map Some xs @ Some NUL # r" "NUL \<notin> set xs" "length xs = k'" "k' < n"
      by auto
    with False k'(2) show ?thesis
      by (intro exI[of _ "x # xs"] exI[of _ r]) auto
  qed
qed


lemma owner_perms_distinct: "owner_msg d u \<noteq> perms_msg d m"
  by (simp add: owner_msg_def perms_msg_def)


lemma try_mkdir_msg: "try_mkdir sys fs d m = (Some ret, fs') \<Longrightarrow> ret \<noteq> []"
  by (auto simp: try_mkdir_def mkdir_msg_def split: prod.splits option.splits if_splits)

lemma make_dir_path_from_msg: "fst (make_dir_path_from sys p m pos fs) \<noteq> Some []"
proof (induction sys p m pos fs rule: make_dir_path_from.induct)
  case (1 sys p m pos fs)
  let ?q = "pos + strcspn p pos ''/''"
  obtain r fs' where t: "(if ?q > 0 then try_mkdir sys fs (take ?q p) m else (None, fs)) = (r, fs')"
    by (cases "if ?q > 0 then try_mkdir sys fs (take ?q p) m else (None, fs)") auto
  show ?case
  proof (cases r)
    case (Some ret)
    with t have "ret \<noteq> []" by (auto split: if_splits dest: try_mkdir_msg)
    with t Some show ?thesis
      by (subst make_dir_path_from.simps) (simp add: Let_def)
  next
    case None
    show ?thesis
    proof (cases "c_at p ?q = NUL")
      case True
      with t None show ?thesis
        by (subst make_dir_path_from.simps) (simp add: Let_def)
    next
      case False
      from "1.IH"[OF refl t[symmetric, unfolded None] refl False]
      have "fst (make_dir_path_from sys p m (?q + strspn p ?q ''/'') fs') \<noteq> Some []" .
      with t None False show ?thesis
        by (subst make_dir_path_from.simps) (simp add: Let_def)
    qed
  qed
qed

lemma strrchr_none: "c \<notin> set F \<Longrightarrow> strrchr F c = None"
  by (auto simp: strrchr_def cstr_def Let_def dest: set_takeWhileD)

lemma cstr_id: "NUL \<notin> set s \<Longrightarrow> cstr s = s"
  by (auto simp: cstr_def)

lemma strrchr_last:
  assumes "NUL \<notin> set (parent @ c # leaf)" and "c \<notin> set leaf"
  shows "strrchr (parent @ c # leaf) c = Some (length parent)"
proof -
  have "takeWhile (\<lambda>x. x \<noteq> c) (rev leaf @ c # rev parent) = rev leaf"
    using assms(2) by (subst takeWhile_append2) auto
  then show ?thesis
    using assms(1) by (simp add: strrchr_def cstr_id)
qed


lemma mkdir_each_Cons:
  "mkdir_each sys fs m (p # ps) =
     (case try_mkdir sys fs p m of
        (Some ret, fs') \<Rightarrow> (Some ret, fs')
      | (None, fs') \<Rightarrow> mkdir_each sys fs' m ps)"
  by (auto simp: try_mkdir_def split: prod.splits option.splits)

lemma strcspn_run:
  assumes "NUL \<notin> set P" and "pos \<le> length P"
  shows "pos + strcspn P pos ''/'' \<le> length P"
    and "\<And>k. pos \<le> k \<Longrightarrow> k < pos + strcspn P pos ''/'' \<Longrightarrow> P ! k \<noteq> CHR ''/''"
    and "pos + strcspn P pos ''/'' < length P \<Longrightarrow> P ! (pos + strcspn P pos ''/'') = CHR ''/''"
proof -
  let ?Q = "\<lambda>c. c \<noteq> NUL \<and> c \<notin> set ''/''"
  let ?xs = "drop pos P"
  let ?n = "length (takeWhile ?Q ?xs)"
  have n: "strcspn P pos ''/'' = ?n" by (simp add: strcspn_def)
  have le: "?n \<le> length ?xs" by (rule length_takeWhile_le)
  with assms(2) show "pos + strcspn P pos ''/'' \<le> length P"
    unfolding n by simp
  {
    fix k assume k: "pos \<le> k" "k < pos + strcspn P pos ''/''"
    then have j: "k - pos < ?n" unfolding n by simp
    then have "takeWhile ?Q ?xs ! (k - pos) = ?xs ! (k - pos)"
      by (rule takeWhile_nth)
    moreover from j have "takeWhile ?Q ?xs ! (k - pos) \<in> set (takeWhile ?Q ?xs)"
      by simp
    then have "?Q (takeWhile ?Q ?xs ! (k - pos))"
      by (rule set_takeWhileD[THEN conjunct2])
    moreover from k le j have "?xs ! (k - pos) = P ! k" by simp
    ultimately show "P ! k \<noteq> CHR ''/''" by simp
  }
  {
    assume lt: "pos + strcspn P pos ''/'' < length P"
    then have "?n < length ?xs" unfolding n by simp
    then have "\<not> ?Q (?xs ! ?n)" by (rule nth_length_takeWhile)
    moreover from lt have "?xs ! ?n = P ! (pos + ?n)" unfolding n by simp
    moreover from lt assms(1) have "P ! (pos + ?n) \<noteq> NUL"
      unfolding n by (metis nth_mem)
    ultimately show "P ! (pos + strcspn P pos ''/'') = CHR ''/''"
      unfolding n by simp
  }
qed

lemma strspn_run:
  assumes "NUL \<notin> set P" and "q \<le> length P"
  shows "q + strspn P q ''/'' \<le> length P"
    and "\<And>k. q \<le> k \<Longrightarrow> k < q + strspn P q ''/'' \<Longrightarrow> P ! k = CHR ''/''"
    and "q + strspn P q ''/'' < length P \<Longrightarrow> P ! (q + strspn P q ''/'') \<noteq> CHR ''/''"
proof -
  let ?Q = "\<lambda>c. c \<noteq> NUL \<and> c \<in> set ''/''"
  let ?xs = "drop q P"
  let ?n = "length (takeWhile ?Q ?xs)"
  have n: "strspn P q ''/'' = ?n" by (simp add: strspn_def)
  have le: "?n \<le> length ?xs" by (rule length_takeWhile_le)
  with assms(2) show "q + strspn P q ''/'' \<le> length P"
    unfolding n by simp
  {
    fix k assume k: "q \<le> k" "k < q + strspn P q ''/''"
    then have j: "k - q < ?n" unfolding n by simp
    then have "takeWhile ?Q ?xs ! (k - q) = ?xs ! (k - q)"
      by (rule takeWhile_nth)
    moreover from j have "takeWhile ?Q ?xs ! (k - q) \<in> set (takeWhile ?Q ?xs)"
      by simp
    then have "?Q (takeWhile ?Q ?xs ! (k - q))"
      by (rule set_takeWhileD[THEN conjunct2])
    moreover from k le j have "?xs ! (k - q) = P ! k" by simp
    ultimately show "P ! k = CHR ''/''" by simp
  }
  {
    assume lt: "q + strspn P q ''/'' < length P"
    then have "?n < length ?xs" unfolding n by simp
    then have "\<not> ?Q (?xs ! ?n)" by (rule nth_length_takeWhile)
    moreover from lt have "?xs ! ?n = P ! (q + ?n)" unfolding n by simp
    moreover from lt assms(1) have "P ! (q + ?n) \<noteq> NUL"
      unfolding n by (metis nth_mem)
    ultimately show "P ! (q + strspn P q ''/'') \<noteq> CHR ''/''"
      unfolding n by simp
  }
qed

lemma filter_upt_skip:
  assumes "a \<le> b" and "b \<le> c" and "\<And>k. a \<le> k \<Longrightarrow> k < b \<Longrightarrow> \<not> Q k"
  shows "filter Q [a..<c] = filter Q [b..<c]"
proof -
  from assms(1,2) have "[a..<c] = [a..<b] @ [b..<c]"
    by (metis le_Suc_ex upt_add_eq_append)
  moreover have "filter Q [a..<b] = []"
    using assms(3) by (simp add: filter_empty_conv)
  ultimately show ?thesis by simp
qed

lemma filter_upt_head: "b < c \<Longrightarrow> Q b \<Longrightarrow> filter Q [b..<c] = b # filter Q [Suc b..<c]"
  by (simp add: upt_conv_Cons)

lemma c_at_nth: "k < length P \<Longrightarrow> c_at P k = P ! k"
  by (simp add: c_at_def)

lemma c_at_end: "NUL \<notin> set P \<Longrightarrow> c_at P k = NUL \<longleftrightarrow> length P \<le> k"
  by (metis c_at_def linorder_not_le nth_mem)

lemma make_dir_path_from_each:
  "pos = 0 \<or> (pos \<le> length P \<and> c_at P (pos - 1) = CHR ''/'' \<and> c_at P pos \<noteq> CHR ''/'') \<Longrightarrow>
   NUL \<notin> set P \<Longrightarrow>
   make_dir_path_from sys P m pos fs =
     mkdir_each sys fs m (map (\<lambda>k. take k P) (filter (is_delim P) [max 1 pos..<Suc (length P)]))"
proof (induction sys P m pos fs rule: make_dir_path_from.induct)
  case (1 sys P m pos fs)
  let ?len = "length P"
  let ?q = "pos + strcspn P pos ''/''"
  let ?f = "\<lambda>a. map (\<lambda>k. take k P) (filter (is_delim P) [a..<Suc ?len])"
  note nul = "1.prems"(2)
  from "1.prems"(1) have pl: "pos \<le> ?len" by auto
  note R = strcspn_run[OF nul pl]
  obtain r fs' where t: "(if ?q > 0 then try_mkdir sys fs (take ?q P) m else (None, fs)) = (r, fs')"
    by (cases "if ?q > 0 then try_mkdir sys fs (take ?q P) m else (None, fs)") auto
  have skip1: "filter (is_delim P) [max 1 pos..<Suc ?len] = filter (is_delim P) [max 1 ?q..<Suc ?len]"
  proof (rule filter_upt_skip)
    show "max 1 pos \<le> max 1 ?q" by simp
    show "max 1 ?q \<le> Suc ?len" using R(1) by simp
    fix k assume k: "max 1 pos \<le> k" "k < max 1 ?q"
    then have kq: "pos \<le> k" "k < ?q" by auto
    with R(1) have "k < ?len" by simp
    moreover from R(2)[OF kq] have "P ! k \<noteq> CHR ''/''" .
    ultimately show "\<not> is_delim P k" by (simp add: is_delim_def c_at_nth)
  qed
  have L: "?f (max 1 pos) = (if ?q > 0 then [take ?q P] else []) @ ?f (Suc ?q)"
  proof (cases "?q > 0")
    case False
    then have p0: "pos = 0" by simp
    from False have s0: "strcspn P 0 ''/'' = 0" by (simp add: p0)
    show ?thesis unfolding p0 by (simp add: s0 del: upt_Suc)
  next
    case True
    have d: "is_delim P ?q"
    proof (cases "?q = ?len")
      case True
      then show ?thesis by (simp add: is_delim_def)
    next
      case False
      with R(1) have lt: "?q < ?len" by simp
      from R(3)[OF lt] have sl: "P ! ?q = CHR ''/''" .
      have "c_at P (?q - 1) \<noteq> CHR ''/''"
      proof (cases "?q = pos")
        case True
        with \<open>?q > 0\<close> "1.prems"(1) have "c_at P pos \<noteq> CHR ''/''" by auto
        with True sl lt show ?thesis by (simp add: c_at_nth)
      next
        case False
        then have "pos \<le> ?q - 1" "?q - 1 < ?q" by auto
        from R(2)[OF this] lt show ?thesis by (simp add: c_at_nth)
      qed
      with sl lt show ?thesis by (simp add: is_delim_def c_at_nth)
    qed
    from True have "max 1 ?q = ?q" by linarith
    moreover from R(1) d have "filter (is_delim P) [?q..<Suc ?len] = ?q # filter (is_delim P) [Suc ?q..<Suc ?len]"
      by (intro filter_upt_head) auto
    ultimately show ?thesis using skip1 True by (simp del: upt_Suc)
  qed
  have each: "mkdir_each sys fs m (?f (max 1 pos)) =
        (case r of Some ret \<Rightarrow> (Some ret, fs') | None \<Rightarrow> mkdir_each sys fs' m (?f (Suc ?q)))"
  proof (cases "?q > 0")
    case True
    with t L show ?thesis by (simp add: mkdir_each_Cons del: mkdir_each.simps upt_Suc)
  next
    case False
    with t L show ?thesis by (auto simp del: upt_Suc)
  qed
  show ?case
  proof (cases r)
    case (Some ret)
    with t each show ?thesis
      by (subst make_dir_path_from.simps) (simp add: Let_def)
  next
    case None
    show ?thesis
    proof (cases "c_at P ?q = NUL")
      case True
      with nul R(1) have "?q = ?len" by (simp add: c_at_end)
      then have "?f (Suc ?q) = []" by (simp del: upt_Suc)
      with t each None True show ?thesis
        by (subst make_dir_path_from.simps) (simp add: Let_def)
    next
      case False
      let ?q2 = "?q + strspn P ?q ''/''"
      from False nul have lt: "?q < ?len" by (simp add: c_at_end)
      note S = strspn_run[OF nul less_imp_le[OF lt]]
      from strcspn_stop(3)[OF False] have pos2: "?q < ?q2" by simp
      have skip2: "filter (is_delim P) [Suc ?q..<Suc ?len] = filter (is_delim P) [?q2..<Suc ?len]"
      proof (rule filter_upt_skip)
        show "Suc ?q \<le> ?q2" using pos2 by simp
        show "?q2 \<le> Suc ?len" using S(1) by simp
        fix k assume k: "Suc ?q \<le> k" "k < ?q2"
        then have "?q \<le> k - 1" "k - 1 < ?q2" by auto
        from S(2)[OF this] have "P ! (k - 1) = CHR ''/''" .
        moreover from k S(1) have "k < ?len" "k - 1 < ?len" by auto
        ultimately show "\<not> is_delim P k" by (simp add: is_delim_def c_at_nth)
      qed
      have inv: "?q2 = 0 \<or> (?q2 \<le> ?len \<and> c_at P (?q2 - 1) = CHR ''/'' \<and> c_at P ?q2 \<noteq> CHR ''/'')"
      proof -
        from pos2 have "?q \<le> ?q2 - 1" "?q2 - 1 < ?q2" by auto
        from S(2)[OF this] S(1) pos2 have a: "c_at P (?q2 - 1) = CHR ''/''"
          by (simp add: c_at_nth)
        have b: "c_at P ?q2 \<noteq> CHR ''/''"
        proof (cases "?q2 < ?len")
          case True
          with S(3) show ?thesis by (simp add: c_at_nth)
        next
          case False
          then show ?thesis by (simp add: c_at_def NUL_def)
        qed
        from a b S(1) show ?thesis by simp
      qed
      from pos2 have m2: "max 1 ?q2 = ?q2" by linarith
      from "1.IH"[OF refl t[symmetric, unfolded None] refl False inv nul]
      have "make_dir_path_from sys P m ?q2 fs' = mkdir_each sys fs' m (?f ?q2)"
        unfolding m2 .
      with t each None False skip2 show ?thesis
        by (subst make_dir_path_from.simps) (simp add: Let_def del: upt_Suc)
    qed
  qed
qed

lemma make_dir_path_each:
  "NUL \<notin> set P \<Longrightarrow> make_dir_path sys fs P m = mkdir_each sys fs m (slash_prefixes P)"
  using make_dir_path_from_each[of 0 P sys m fs]
  by (simp add: make_dir_path_def slash_prefixes_def del: upt_Suc)

lemma mkdir_each_present:
  assumes stable: "\<And>fs p m. fst (sys_mkdir sys fs p m) = None \<or> fst (sys_mkdir sys fs p m) = Some EEXIST
                      \<Longrightarrow> present (snd (sys_mkdir sys fs p m)) p"
    and mono: "\<And>fs p m q. present fs q \<Longrightarrow> present (snd (sys_mkdir sys fs p m)) q"
  shows "mkdir_each sys fs m ps = (None, fs') \<Longrightarrow>
         (\<forall>q. present fs q \<longrightarrow> present fs' q) \<and> (\<forall>p\<in>set ps. present fs' p)"
proof (induction ps arbitrary: fs)
  case Nil
  then show ?case by simp
next
  case (Cons p ps)
  obtain r fs1 where mk: "sys_mkdir sys fs p m = (r, fs1)"
    by (cases "sys_mkdir sys fs p m") auto
  from Cons.prems mk have ok: "r = None \<or> r = Some EEXIST"
    and rest: "mkdir_each sys fs1 m ps = (None, fs')"
    by (auto split: option.splits if_splits)
  from stable[of fs p m] mk ok have p1: "present fs1 p" by simp
  from mono[of fs _ p m] mk have m1: "\<And>q. present fs q \<Longrightarrow> present fs1 q" by simp
  from Cons.IH[OF rest] have "\<forall>q. present fs1 q \<longrightarrow> present fs' q" "\<forall>p\<in>set ps. present fs' p"
    by auto
  with p1 m1 show ?case by auto
qed

lemma mkdir_each_again:
  assumes exist: "\<And>fs p m. present fs p \<Longrightarrow> fst (sys_mkdir sys fs p m) = Some EEXIST"
    and mono: "\<And>fs p m q. present fs q \<Longrightarrow> present (snd (sys_mkdir sys fs p m)) q"
  shows "\<forall>p\<in>set ps. present fs p \<Longrightarrow> fst (mkdir_each sys fs m ps) = None"
proof (induction ps arbitrary: fs)
  case Nil
  then show ?case by simp
next
  case (Cons p ps)
  obtain r fs1 where mk: "sys_mkdir sys fs p m = (r, fs1)"
    by (cases "sys_mkdir sys fs p m") auto
  from exist[of fs p m] Cons.prems mk have r: "r = Some EEXIST" by simp
  from mono[of fs _ p m] mk Cons.prems have "\<forall>q\<in>set ps. present fs1 q" by simp
  from Cons.IH[OF this] mk r show ?case by simp
qed


section \<open>Claims about \<open>expand_envstrings\<close>\<close>

text \<open>
  C1.  The claim: a \<open>$\<close> that starts neither a \<open>$NAME\<close> nor a closed \<open>${NAME}\<close>
  reference is copied to the output.  The code does not copy it: the branch that sets
  \<open>elen = -1\<close> writes nothing and does not advance \<open>j\<close>, so the \<open>$\<close> is dropped.  A
  lone \<open>$\<close> expands to the empty string, \<open>$1abc\<close> to \<open>1abc\<close> and \<open>${FOO\<close> to
  \<open>{FOO\<close>.
\<close>

theorem expand_unmatched_dollar_dropped:
  "expand_envstrings e ''$'' = Inr []
   \<and> expand_envstrings e ''$1abc'' = Inr ''1abc''
   \<and> expand_envstrings e ''${FOO'' = Inr ''{FOO''"
  by code_simp

text \<open>
  C3, as amended.  The claim as stated fails for a reference that lies inside the braces
  of an earlier \<open>${...}\<close> reference (see the counterexample below): everything up to
  the first \<open>}\<close> is the name looked up.  What holds: expansion never fails, and for
  every \<open>$\<close> of a string that is neither escaped nor part of a \<open>${...}\<close> reference
  (in particular every \<open>$\<close> with no \<open>{\<close> before it and no backslash right before it),
  \<^item> if a letter or underscore follows, NAME is the maximal run of alphanumerics and
    underscores after the \<open>$\<close>, and the result is the expansion of the text before the
    \<open>$\<close>, then the value of NAME (nothing if NAME is unset), then the expansion of the
    text after NAME;
  \<^item> if \<open>{NAME}\<close> follows, NAME free of \<open>}\<close>, the result is the expansion of the
    text before the \<open>$\<close>, then the value of NAME (nothing if NAME is unset or empty),
    then the expansion of the text after the closing brace.
\<close>

theorem expand_reference_anywhere:
  "(\<exists>out. expand_envstrings e str = Inr out) \<and>
   (NUL \<notin> set str \<and> i < length str \<and> str ! i = CHR ''$''
    \<and> (unescaped_outside_braces str i
        \<or> (CHR ''{'' \<notin> set (take i str) \<and> (i = 0 \<or> str ! (i - 1) \<noteq> BSL))) \<longrightarrow>
      ((isalpha (c_at str (Suc i)) \<or> c_at str (Suc i) = CHR ''_'')
        \<and> name = takeWhile (\<lambda>c. isalnum c \<or> c = CHR ''_'') (drop (Suc i) str) \<longrightarrow>
          (\<exists>a b. expand_envstrings e (take i str) = Inr a
             \<and> expand_envstrings e (drop (Suc i + length name) str) = Inr b
             \<and> expand_envstrings e str = Inr (a @ getval e name @ b)))
    \<and> (drop (Suc i) str = CHR ''{'' # name @ CHR ''}'' # rest \<and> CHR ''}'' \<notin> set name \<longrightarrow>
          (\<exists>a b. expand_envstrings e (take i str) = Inr a
             \<and> expand_envstrings e rest = Inr b
             \<and> expand_envstrings e str
                 = Inr (a @ (if name = [] then [] else getval e name) @ b))))"
proof (intro conjI impI; (elim conjE)?)
  show "\<exists>out. expand_envstrings e str = Inr out"
    by (simp add: expand_expansion)
next
  assume nul: "NUL \<notin> set str" and lt: "i < length str" and d: "str ! i = CHR ''$''"
    and o: "unescaped_outside_braces str i
            \<or> (CHR ''{'' \<notin> set (take i str) \<and> (i = 0 \<or> str ! (i - 1) \<noteq> BSL))"
    and al: "isalpha (c_at str (Suc i)) \<or> c_at str (Suc i) = CHR ''_''"
    and n: "name = takeWhile (\<lambda>c. isalnum c \<or> c = CHR ''_'') (drop (Suc i) str)"
  from o lt d have u: "unescaped_outside_braces str i"
    by (auto intro: outside_no_brace)
  from expand_at[OF nul u] d
  have sp: "expansion e str = expansion e (take i str) @ expansion e (drop i str)" by simp
  from al have "c_at str (Suc i) \<noteq> NUL" by (auto simp: isalpha_def NUL_def)
  then have lt2: "Suc i < length str" by (simp add: c_at_def split: if_splits)
  then have d2: "drop (Suc i) str = c_at str (Suc i) # drop (Suc (Suc i)) str"
    by (simp add: c_at_def Cons_nth_drop_Suc)
  from lt d have d1: "drop i str = CHR ''$'' # drop (Suc i) str"
    by (simp add: Cons_nth_drop_Suc[symmetric])
  have "expansion e (CHR ''$'' # c_at str (Suc i) # drop (Suc (Suc i)) str)
        = getval e name @ expansion e (dropWhile (\<lambda>c. isalnum c \<or> c = CHR ''_'')
                                          (c_at str (Suc i) # drop (Suc (Suc i)) str))"
    using al n d2 by (intro exp_name) simp_all
  moreover have "dropWhile (\<lambda>c. isalnum c \<or> c = CHR ''_'') (drop (Suc i) str)
        = drop (Suc i + length name) str"
    unfolding n by (simp add: dropWhile_eq_drop add.commute)
  ultimately have "expansion e (drop i str)
        = getval e name @ expansion e (drop (Suc i + length name) str)"
    using d1 d2 by simp
  with sp show "\<exists>a b. expand_envstrings e (take i str) = Inr a
             \<and> expand_envstrings e (drop (Suc i + length name) str) = Inr b
             \<and> expand_envstrings e str = Inr (a @ getval e name @ b)"
    by (simp add: expand_expansion)
next
  assume nul: "NUL \<notin> set str" and lt: "i < length str" and d: "str ! i = CHR ''$''"
    and o: "unescaped_outside_braces str i
            \<or> (CHR ''{'' \<notin> set (take i str) \<and> (i = 0 \<or> str ! (i - 1) \<noteq> BSL))"
    and br: "drop (Suc i) str = CHR ''{'' # name @ CHR ''}'' # rest" "CHR ''}'' \<notin> set name"
  from o lt d have u: "unescaped_outside_braces str i"
    by (auto intro: outside_no_brace)
  from expand_at[OF nul u] d
  have sp: "expansion e str = expansion e (take i str) @ expansion e (drop i str)" by simp
  from lt d have d1: "drop i str = CHR ''$'' # drop (Suc i) str"
    by (simp add: Cons_nth_drop_Suc[symmetric])
  have "set name \<subseteq> set (drop (Suc i) str)" unfolding br(1) by auto
  with nul have nn: "NUL \<notin> set name" by (meson in_set_dropD subsetD)
  from exp_brace[OF br(2) nn, of e rest] d1 br(1)
  have "expansion e (drop i str) = (if name = [] then [] else getval e name) @ expansion e rest"
    by simp
  with sp show "\<exists>a b. expand_envstrings e (take i str) = Inr a
             \<and> expand_envstrings e rest = Inr b
             \<and> expand_envstrings e str
                 = Inr (a @ (if name = [] then [] else getval e name) @ b)"
    by (simp add: expand_expansion)
qed

theorem expand_reference_witness:
  "expand_envstrings [''HOME'' \<mapsto> ''/home/u''] ''$HOME/${LOG}x'' = Inr (''/home/u'' @ ''/x'')
   \<and> unescaped_outside_braces ''$HOME/${LOG}x'' 6
   \<and> expand_envstrings [''HOME'' \<mapsto> ''/home/u''] ''$HOME/${LOG}x'' = Inr (''/home/u/'' @ [] @ ''x'')"
proof -
  let ?E = "[''HOME'' \<mapsto> ''/home/u'']"
  let ?S = "''$HOME/${LOG}x''"
  have nul: "NUL \<notin> set ?S" by (simp add: NUL_def)
  have l0: "0 < length ?S" and c0: "?S ! 0 = CHR ''$''" by simp_all
  have o0: "unescaped_outside_braces ?S 0
            \<or> (CHR ''{'' \<notin> set (take 0 ?S) \<and> (0 = (0::nat) \<or> ?S ! (0 - 1) \<noteq> BSL))"
    by simp
  have a0: "isalpha (c_at ?S (Suc 0)) \<or> c_at ?S (Suc 0) = CHR ''_''" by code_simp
  have n0: "''HOME'' = takeWhile (\<lambda>c. isalnum c \<or> c = CHR ''_'') (drop (Suc 0) ?S)" by code_simp
  note T0 = expand_reference_anywhere[of ?E ?S 0 "''HOME''" "[]", THEN conjunct2]
  from T0 nul l0 c0 o0 a0 n0
  have "\<exists>a b. expand_envstrings ?E (take 0 ?S) = Inr a
          \<and> expand_envstrings ?E (drop (Suc 0 + length ''HOME'') ?S) = Inr b
          \<and> expand_envstrings ?E ?S = Inr (a @ getval ?E ''HOME'' @ b)"
    by blast
  then obtain a b where ab: "expand_envstrings ?E (take 0 ?S) = Inr a"
      "expand_envstrings ?E (drop (Suc 0 + length ''HOME'') ?S) = Inr b"
      "expand_envstrings ?E ?S = Inr (a @ getval ?E ''HOME'' @ b)"
    by blast
  have fa: "expand_envstrings ?E (take 0 ?S) = Inr []" by code_simp
  have fb: "expand_envstrings ?E (drop (Suc 0 + length ''HOME'') ?S) = Inr ''/x''" by code_simp
  have g: "getval ?E ''HOME'' = ''/home/u''" by code_simp
  from ab(1) fa have ea: "a = []" by (simp only: sum.inject)
  from ab(2) fb have eb: "b = ''/x''" by (simp only: sum.inject)
  from ab(3) have 1: "expand_envstrings ?E ?S = Inr (''/home/u'' @ ''/x'')"
    unfolding ea eb g by simp
  have l6: "6 < length ?S" and c6: "?S ! 6 = CHR ''$''" by simp_all
  have u6: "unescaped_outside_braces ?S 6" by code_simp
  then have o6: "unescaped_outside_braces ?S 6
            \<or> (CHR ''{'' \<notin> set (take 6 ?S) \<and> (6 = (0::nat) \<or> ?S ! (6 - 1) \<noteq> BSL))"
    by (rule disjI1)
  have d6: "drop (Suc 6) ?S = CHR ''{'' # ''LOG'' @ CHR ''}'' # ''x''" by simp
  have nb: "CHR ''}'' \<notin> set ''LOG''" by simp
  note T6 = expand_reference_anywhere[of ?E ?S 6 "''LOG''" "''x''", THEN conjunct2]
  from T6 nul l6 c6 o6 d6 nb
  have "\<exists>a b. expand_envstrings ?E (take 6 ?S) = Inr a
          \<and> expand_envstrings ?E ''x'' = Inr b
          \<and> expand_envstrings ?E ?S = Inr (a @ (if ''LOG'' = [] then [] else getval ?E ''LOG'') @ b)"
    by blast
  then obtain a' b' where ab': "expand_envstrings ?E (take 6 ?S) = Inr a'"
      "expand_envstrings ?E ''x'' = Inr b'"
      "expand_envstrings ?E ?S = Inr (a' @ (if ''LOG'' = [] then [] else getval ?E ''LOG'') @ b')"
    by blast
  have fa': "expand_envstrings ?E (take 6 ?S) = Inr ''/home/u/''" by code_simp
  have fb': "expand_envstrings ?E ''x'' = Inr ''x''" by code_simp
  have g': "getval ?E ''LOG'' = []" by code_simp
  from ab'(1) fa' have ea': "a' = ''/home/u/''" by (simp only: sum.inject)
  from ab'(2) fb' have eb': "b' = ''x''" by (simp only: sum.inject)
  from ab'(3) have 2: "expand_envstrings ?E ?S = Inr (''/home/u/'' @ [] @ ''x'')"
    unfolding ea' eb' g' by simp
  from 1 u6 2 show ?thesis by blast
qed

text \<open>
  C3, counterexample to the claim as stated: the input contains the unescaped reference
  \<open>$B\<close>, \<open>B\<close> is bound to \<open>x\<close>, yet the output is empty, because \<open>A$B\<close> is taken
  as the name of the enclosing \<open>${...}\<close>.
\<close>

theorem reference_inside_braces_not_expanded:
  "expand_envstrings [''B'' \<mapsto> ''x''] ''${A$B}'' = Inr []"
  by code_simp

text \<open>
  C4, as amended.  The claim as stated fails for a backslash inside the braces of a
  \<open>${...}\<close> reference, where it is part of the name (see the counterexample below).
  What holds: for every backslash of a string that is not part of a \<open>${...}\<close>
  reference (in particular every backslash with no \<open>{\<close> before it),
  \<^item> if \<open>$\<close> or \<open>~\<close> follows, the result is the expansion of the text before the
    backslash, then that \<open>$\<close> or \<open>~\<close> itself, then the expansion of the text after
    it: the backslash is dropped and nothing is substituted;
  \<^item> otherwise the result is the expansion of the text before the backslash, then the
    backslash, then the expansion of the text after it.
\<close>

theorem expand_backslash_anywhere:
  assumes "NUL \<notin> set str" and "i < length str" and "str ! i = BSL"
    and "unescaped_outside_braces str i \<or> CHR ''{'' \<notin> set (take i str)"
  shows "\<exists>a b. expand_envstrings e (take i str) = Inr a \<and>
          (if c_at str (Suc i) = CHR ''$'' \<or> c_at str (Suc i) = CHR ''~''
           then expand_envstrings e (drop (i + 2) str) = Inr b
                \<and> expand_envstrings e str = Inr (a @ [c_at str (Suc i)] @ b)
           else expand_envstrings e (drop (Suc i) str) = Inr b
                \<and> expand_envstrings e str = Inr (a @ [BSL] @ b))"
proof -
  have "\<not> (str ! i = CHR ''$'' \<or> str ! i = CHR ''~'')"
    using assms(3) by (simp add: BSL_def)
  with assms(2,3,4) have u: "unescaped_outside_braces str i"
    by (auto intro: outside_no_brace)
  from expand_at[OF assms(1) u] assms(3)
  have sp: "expansion e str = expansion e (take i str) @ expansion e (drop i str)" by simp
  from assms(2,3) have d1: "drop i str = BSL # drop (Suc i) str"
    by (simp add: Cons_nth_drop_Suc[symmetric])
  show ?thesis
  proof (cases "c_at str (Suc i) = CHR ''$'' \<or> c_at str (Suc i) = CHR ''~''")
    case True
    then have "c_at str (Suc i) \<noteq> NUL" by (auto simp: NUL_def)
    then have "Suc i < length str" by (simp add: c_at_def split: if_splits)
    then have "drop (Suc i) str = c_at str (Suc i) # drop (i + 2) str"
      by (simp add: c_at_def Cons_nth_drop_Suc)
    with d1 exp_esc[OF True, of e "drop (i + 2) str"]
    have "expansion e (drop i str) = c_at str (Suc i) # expansion e (drop (i + 2) str)"
      by simp
    with sp True show ?thesis by (simp add: expand_expansion)
  next
    case False
    have "\<not> (BSL = BSL \<and> drop (Suc i) str \<noteq> []
             \<and> (hd (drop (Suc i) str) = CHR ''$'' \<or> hd (drop (Suc i) str) = CHR ''~''))"
      using False by (auto simp: c_at_def hd_drop_conv_nth split: if_splits)
    then have "expansion e (BSL # drop (Suc i) str) = BSL # expansion e (drop (Suc i) str)"
      by (intro exp_lit) (simp_all add: BSL_def NUL_def)
    with d1 sp False show ?thesis by (simp add: expand_expansion)
  qed
qed

theorem expand_backslash_witness:
  "expand_envstrings [''HOME'' \<mapsto> ''/home/u''] (CHR ''x'' # BSL # ''$HOME'') = Inr (''x'' @ ''$'' @ ''HOME'')
   \<and> expand_envstrings [''HOME'' \<mapsto> ''/home/u''] (CHR ''x'' # BSL # ''y'') = Inr (''x'' @ [BSL] @ ''y'')"
proof -
  let ?E = "[''HOME'' \<mapsto> ''/home/u'']"
  let ?S = "CHR ''x'' # BSL # ''$HOME''"
  have nul: "NUL \<notin> set ?S" by (simp add: NUL_def BSL_def)
  have l: "1 < length ?S" and c: "?S ! 1 = BSL" by simp_all
  have o: "unescaped_outside_braces ?S 1 \<or> CHR ''{'' \<notin> set (take 1 ?S)" by simp
  have n: "c_at ?S (Suc 1) = CHR ''$''" by code_simp
  from expand_backslash_anywhere[OF nul l c o, of ?E] n
  obtain a b where ab: "expand_envstrings ?E (take 1 ?S) = Inr a"
      "expand_envstrings ?E (drop (1 + 2) ?S) = Inr b"
      "expand_envstrings ?E ?S = Inr (a @ [CHR ''$''] @ b)"
    by auto
  have fa: "expand_envstrings ?E (take 1 ?S) = Inr ''x''" by code_simp
  have fb: "expand_envstrings ?E (drop (1 + 2) ?S) = Inr ''HOME''" by code_simp
  from ab(1) fa have ea: "a = ''x''" by (simp only: sum.inject)
  from ab(2) fb have eb: "b = ''HOME''" by (simp only: sum.inject)
  from ab(3) have 1: "expand_envstrings ?E ?S = Inr (''x'' @ ''$'' @ ''HOME'')"
    unfolding ea eb .
  let ?T = "CHR ''x'' # BSL # ''y''"
  have nul2: "NUL \<notin> set ?T" by (simp add: NUL_def BSL_def)
  have l2: "1 < length ?T" and c2: "?T ! 1 = BSL" by simp_all
  have o2: "unescaped_outside_braces ?T 1 \<or> CHR ''{'' \<notin> set (take 1 ?T)" by simp
  have n2: "\<not> (c_at ?T (Suc 1) = CHR ''$'' \<or> c_at ?T (Suc 1) = CHR ''~'')" by code_simp
  from expand_backslash_anywhere[OF nul2 l2 c2 o2, of ?E] n2
  obtain a' b' where ab': "expand_envstrings ?E (take 1 ?T) = Inr a'"
      "expand_envstrings ?E (drop (Suc 1) ?T) = Inr b'"
      "expand_envstrings ?E ?T = Inr (a' @ [BSL] @ b')"
    by auto
  have fa': "expand_envstrings ?E (take 1 ?T) = Inr ''x''" by code_simp
  have fb': "expand_envstrings ?E (drop (Suc 1) ?T) = Inr ''y''" by code_simp
  from ab'(1) fa' have ea': "a' = ''x''" by (simp only: sum.inject)
  from ab'(2) fb' have eb': "b' = ''y''" by (simp only: sum.inject)
  from ab'(3) have 2: "expand_envstrings ?E ?T = Inr (''x'' @ [BSL] @ ''y'')"
    unfolding ea' eb' .
  from 1 2 show ?thesis by blast
qed

text \<open>
  C4, counterexample to the claim as stated: the input \<open>${\$}\<close> holds a backslash
  followed by \<open>$\<close>, yet no \<open>$\<close> reaches the output.
\<close>

theorem backslash_inside_braces_not_an_escape:
  "expand_envstrings Map.empty [CHR ''$'', CHR ''{'', BSL, CHR ''$'', CHR ''}''] = Inr []"
  by code_simp

text \<open>
  C5, as amended.  The claim as stated fails for a tilde inside the braces of a
  \<open>${...}\<close> reference, where it is part of the name (see the counterexample below).
  What holds: for every \<open>~\<close> of a string, at any position, that is neither escaped
  nor part of a \<open>${...}\<close> reference (in particular every \<open>~\<close> with no \<open>{\<close> before
  it and no backslash right before it), the result is the expansion of the text before
  the \<open>~\<close>, then the value of \<open>HOME\<close> (nothing if \<open>HOME\<close> is unset), then the
  expansion of the text after the \<open>~\<close>.
\<close>

theorem expand_tilde_anywhere:
  assumes "NUL \<notin> set str" and "i < length str" and "str ! i = CHR ''~''"
    and "unescaped_outside_braces str i
         \<or> (CHR ''{'' \<notin> set (take i str) \<and> (i = 0 \<or> str ! (i - 1) \<noteq> BSL))"
  shows "\<exists>a b. expand_envstrings e (take i str) = Inr a
           \<and> expand_envstrings e (drop (Suc i) str) = Inr b
           \<and> expand_envstrings e str = Inr (a @ getval e ''HOME'' @ b)"
proof -
  from assms(2,3,4) have u: "unescaped_outside_braces str i"
    by (auto intro: outside_no_brace)
  from expand_at[OF assms(1) u] assms(3)
  have sp: "expansion e str = expansion e (take i str) @ expansion e (drop i str)" by simp
  from assms(2,3) have "drop i str = CHR ''~'' # drop (Suc i) str"
    by (simp add: Cons_nth_drop_Suc[symmetric])
  with sp show ?thesis by (simp add: expand_expansion exp_tilde)
qed

theorem expand_tilde_witness:
  "unescaped_outside_braces ''a~b~c'' 3
   \<and> expand_envstrings [''HOME'' \<mapsto> ''/h''] ''a~b~c'' = Inr (''a/hb'' @ ''/h'' @ ''c'')"
proof -
  let ?E = "[''HOME'' \<mapsto> ''/h'']"
  let ?S = "''a~b~c''"
  have nul: "NUL \<notin> set ?S" by (simp add: NUL_def)
  have l: "3 < length ?S" and c: "?S ! 3 = CHR ''~''" by simp_all
  have u: "unescaped_outside_braces ?S 3" by code_simp
  from expand_tilde_anywhere[OF nul l c disjI1[OF u], of ?E]
  obtain a b where ab: "expand_envstrings ?E (take 3 ?S) = Inr a"
      "expand_envstrings ?E (drop (Suc 3) ?S) = Inr b"
      "expand_envstrings ?E ?S = Inr (a @ getval ?E ''HOME'' @ b)"
    by blast
  have fa: "expand_envstrings ?E (take 3 ?S) = Inr ''a/hb''" by code_simp
  have fb: "expand_envstrings ?E (drop (Suc 3) ?S) = Inr ''c''" by code_simp
  have g: "getval ?E ''HOME'' = ''/h''" by code_simp
  from ab(1) fa have ea: "a = ''a/hb''" by (simp only: sum.inject)
  from ab(2) fb have eb: "b = ''c''" by (simp only: sum.inject)
  from ab(3) have "expand_envstrings ?E ?S = Inr (''a/hb'' @ ''/h'' @ ''c'')"
    unfolding ea eb g .
  with u show ?thesis by blast
qed

text \<open>
  C5, counterexample to the claim as stated: the tilde of \<open>${~}\<close> is not escaped and
  \<open>HOME\<close> is set, yet the output is empty.
\<close>

theorem tilde_inside_braces_not_expanded:
  "expand_envstrings [''HOME'' \<mapsto> ''/h''] ''${~}'' = Inr []"
  by code_simp

text \<open>
  C8.  On a string without \<open>$\<close>, \<open>~\<close> and backslash, expansion is the identity,
  whatever the environment.
\<close>

theorem expand_plain_identity:
  assumes "\<forall>c\<in>set S. c \<noteq> NUL \<and> c \<noteq> CHR ''$'' \<and> c \<noteq> CHR ''~'' \<and> c \<noteq> BSL"
  shows "expand_envstrings e S = Inr S"
  using outp_plain[of False 0 S e] assms by (simp add: expand_result)

theorem expand_plain_identity_witness:
  "expand_envstrings [''HOME'' \<mapsto> ''/h''] ''/var/log/putty-a_b.log'' = Inr ''/var/log/putty-a_b.log''"
proof -
  have h: "\<forall>c\<in>set ''/var/log/putty-a_b.log''. c \<noteq> NUL \<and> c \<noteq> CHR ''$'' \<and> c \<noteq> CHR ''~'' \<and> c \<noteq> BSL"
    by (simp add: NUL_def BSL_def)
  from expand_plain_identity[OF h] show ?thesis .
qed


section \<open>Claims about the directory routines\<close>

text \<open>
  C2.  \<open>make_dir_and_check_ours\<close> leaves the file system as \<open>mkdir\<close> left it; it
  returns NULL exactly when \<open>mkdir\<close> succeeded or failed with \<open>EEXIST\<close>, \<open>stat\<close>
  succeeded, the owner is the caller and no group or other bit is set in the mode.  A
  failure of \<open>mkdir\<close> other than \<open>EEXIST\<close> returns the \<open>mkdir\<close> message;
  otherwise, also after \<open>EEXIST\<close>, a failure of \<open>stat\<close> returns the \<open>stat\<close>
  message, a foreign owner the owner message and a group or other bit the permissions
  message; the last two always differ.
\<close>

theorem make_dir_and_check_ours_cases:
  "snd (make_dir_and_check_ours sys fs D) = snd (sys_mkdir sys fs (cstr D) 448)
   \<and> (fst (make_dir_and_check_ours sys fs D) = None \<longleftrightarrow>
        (fst (sys_mkdir sys fs (cstr D) 448) = None \<or> fst (sys_mkdir sys fs (cstr D) 448) = Some EEXIST)
        \<and> (\<exists>st. sys_stat sys (snd (sys_mkdir sys fs (cstr D) 448)) (cstr D) = Inr st
               \<and> st_uid st = sys_getuid sys \<and> st_mode st AND 63 = 0))
   \<and> (fst (sys_mkdir sys fs (cstr D) 448) = Some e \<and> e \<noteq> EEXIST \<longrightarrow>
        fst (make_dir_and_check_ours sys fs D) = Some (mkdir_msg sys (cstr D) e))
   \<and> (fst (sys_mkdir sys fs (cstr D) 448) = None \<or> fst (sys_mkdir sys fs (cstr D) 448) = Some EEXIST \<longrightarrow>
        (sys_stat sys (snd (sys_mkdir sys fs (cstr D) 448)) (cstr D) = Inl e \<longrightarrow>
           fst (make_dir_and_check_ours sys fs D) = Some (stat_msg sys (cstr D) e))
        \<and> (sys_stat sys (snd (sys_mkdir sys fs (cstr D) 448)) (cstr D) = Inr st \<and> st_uid st \<noteq> sys_getuid sys \<longrightarrow>
           fst (make_dir_and_check_ours sys fs D) = Some (owner_msg (cstr D) (st_uid st)))
        \<and> (sys_stat sys (snd (sys_mkdir sys fs (cstr D) 448)) (cstr D) = Inr st \<and> st_uid st = sys_getuid sys
             \<and> st_mode st AND 63 \<noteq> 0 \<longrightarrow>
           fst (make_dir_and_check_ours sys fs D) = Some (perms_msg (cstr D) (st_mode st))))
   \<and> owner_msg (cstr D) u \<noteq> perms_msg (cstr D) m"
proof -
  obtain r fs' where mk: "sys_mkdir sys fs (cstr D) 448 = (r, fs')"
    by (cases "sys_mkdir sys fs (cstr D) 448") auto
  show ?thesis
    using owner_perms_distinct[of "cstr D" u m]
    by (cases r; cases "sys_stat sys fs' (cstr D)")
       (auto simp: mk make_dir_and_check_ours_def check_ours_def Let_def)
qed

theorem make_dir_and_check_ours_witness:
  "fst (sys_mkdir (demo_sys 1000) [(''/tmp/d'', \<lparr>st_uid = 0, st_mode = 448\<rparr>)] ''/tmp/d'' 448) = Some EEXIST
   \<and> fst (make_dir_and_check_ours (demo_sys 1000) [(''/tmp/d'', \<lparr>st_uid = 0, st_mode = 448\<rparr>)] ''/tmp/d'')
       = Some ''/tmp/d: directory owned by uid 0, not by us''
   \<and> fst (make_dir_and_check_ours (demo_sys 1000) [] ''/tmp/d'') = None"
proof -
  let ?sys = "demo_sys 1000"
  let ?st = "\<lparr>st_uid = 0, st_mode = 448\<rparr>"
  let ?fs = "[(''/tmp/d'', ?st)]"
  let ?D = "''/tmp/d''"
  have c: "cstr ?D = ?D" by code_simp
  have mk: "fst (sys_mkdir ?sys ?fs ?D 448) = Some EEXIST"
    by (simp add: demo_sys_def)
  have st: "sys_stat ?sys (snd (sys_mkdir ?sys ?fs ?D 448)) ?D = Inr ?st"
    by (simp add: demo_sys_def)
  have ne: "st_uid ?st \<noteq> sys_getuid ?sys"
    by (simp add: demo_sys_def)
  have msg: "owner_msg ?D (st_uid ?st) = ''/tmp/d: directory owned by uid 0, not by us''"
    by code_simp
  note T = make_dir_and_check_ours_cases[where sys = ?sys and fs = ?fs and D = ?D and st = ?st, unfolded c]
  from T mk st ne have "fst (make_dir_and_check_ours ?sys ?fs ?D) = Some (owner_msg ?D (st_uid ?st))"
    by blast
  then have 1: "fst (make_dir_and_check_ours ?sys ?fs ?D) = Some ''/tmp/d: directory owned by uid 0, not by us''"
    by (simp only: msg)
  let ?st2 = "\<lparr>st_uid = 1000, st_mode = 448\<rparr>"
  have mk2: "fst (sys_mkdir ?sys [] ?D 448) = None"
    by (simp add: demo_sys_def)
  have st2: "sys_stat ?sys (snd (sys_mkdir ?sys [] ?D 448)) ?D = Inr ?st2
             \<and> st_uid ?st2 = sys_getuid ?sys \<and> st_mode ?st2 AND 63 = 0"
    by (simp add: demo_sys_def)
  note U = make_dir_and_check_ours_cases[where sys = ?sys and fs = "[]" and D = ?D, unfolded c]
  from U mk2 st2 have 2: "fst (make_dir_and_check_ours ?sys [] ?D) = None"
    by blast
  from mk 1 2 show ?thesis by blast
qed

text \<open>
  C6.  \<open>make_dir_path (P, m)\<close> does what \<open>mkdir_each\<close> does on the slash-delimited
  prefixes of \<open>P\<close>: \<open>mkdir\<close> with mode \<open>m\<close> on each of them from left to right,
  going on after success and after \<open>EEXIST\<close>, returning at once the message naming the
  prefix and the error text on any other failure, and returning NULL after the last
  prefix.  On a file system where a directory that \<open>mkdir\<close> created or found existing
  is present, where \<open>mkdir\<close> answers \<open>EEXIST\<close> for a present directory and never
  removes one, a call that succeeded succeeds again when repeated.
\<close>

theorem make_dir_path_prefixes:
  "NUL \<notin> set P \<longrightarrow>
     make_dir_path sys fs P m = mkdir_each sys fs m (slash_prefixes P)
     \<and> ((\<forall>fs p m. fst (sys_mkdir sys fs p m) = None \<or> fst (sys_mkdir sys fs p m) = Some EEXIST
                    \<longrightarrow> present (snd (sys_mkdir sys fs p m)) p)
        \<and> (\<forall>fs p m. present fs p \<longrightarrow> fst (sys_mkdir sys fs p m) = Some EEXIST)
        \<and> (\<forall>fs p m q. present fs q \<longrightarrow> present (snd (sys_mkdir sys fs p m)) q)
        \<and> fst (make_dir_path sys fs P m) = None
        \<longrightarrow> fst (make_dir_path sys (snd (make_dir_path sys fs P m)) P m) = None)"
proof (intro impI conjI; (elim conjE)?)
  assume nul: "NUL \<notin> set P"
  then show "make_dir_path sys fs P m = mkdir_each sys fs m (slash_prefixes P)"
    by (rule make_dir_path_each)
next
  assume nul: "NUL \<notin> set P"
    and stable: "\<forall>fs p m. fst (sys_mkdir sys fs p m) = None \<or> fst (sys_mkdir sys fs p m) = Some EEXIST
                    \<longrightarrow> present (snd (sys_mkdir sys fs p m)) p"
    and exist: "\<forall>fs p m. present fs p \<longrightarrow> fst (sys_mkdir sys fs p m) = Some EEXIST"
    and mono: "\<forall>fs p m q. present fs q \<longrightarrow> present (snd (sys_mkdir sys fs p m)) q"
    and first: "fst (make_dir_path sys fs P m) = None"
  let ?ps = "slash_prefixes P"
  obtain fs' where e: "mkdir_each sys fs m ?ps = (None, fs')"
    using first make_dir_path_each[OF nul, of sys fs m]
    by (cases "mkdir_each sys fs m ?ps") auto
  have "\<forall>p\<in>set ?ps. present fs' p"
    using mkdir_each_present[of sys present fs m ?ps fs'] stable mono e by blast
  then have "fst (mkdir_each sys fs' m ?ps) = None"
    using mkdir_each_again[of present sys ?ps fs' m] exist mono by blast
  with e show "fst (make_dir_path sys (snd (make_dir_path sys fs P m)) P m) = None"
    by (simp add: make_dir_path_each[OF nul])
qed

theorem make_dir_path_witness:
  "slash_prefixes ''/a/b/c'' = [''/a'', ''/a/b'', ''/a/b/c'']
   \<and> make_dir_path (demo_sys 1000) [] ''/a/b/c'' 448
       = (None, [(''/a/b/c'', \<lparr>st_uid = 1000, st_mode = 448\<rparr>),
                 (''/a/b'', \<lparr>st_uid = 1000, st_mode = 448\<rparr>),
                 (''/a'', \<lparr>st_uid = 1000, st_mode = 448\<rparr>)])
   \<and> fst (make_dir_path (demo_sys 1000)
            (snd (make_dir_path (demo_sys 1000) [] ''/a/b/c'' 448)) ''/a/b/c'' 448) = None
   \<and> make_dir_path (demo_sys 1000) [] ''/proc/x/y'' 448
       = (Some ''/proc/x: mkdir: Permission denied'', [(''/proc'', \<lparr>st_uid = 1000, st_mode = 448\<rparr>)])"
proof -
  let ?sys = "demo_sys 1000"
  let ?P = "''/a/b/c''"
  let ?present = "\<lambda>fs p. map_of (fs :: dirs) p \<noteq> None"
  have nul: "NUL \<notin> set ?P" by (simp add: NUL_def)
  have sp: "slash_prefixes ?P = [''/a'', ''/a/b'', ''/a/b/c'']" by code_simp
  have first: "make_dir_path ?sys [] ?P 448
       = (None, [(''/a/b/c'', \<lparr>st_uid = 1000, st_mode = 448\<rparr>),
                 (''/a/b'', \<lparr>st_uid = 1000, st_mode = 448\<rparr>),
                 (''/a'', \<lparr>st_uid = 1000, st_mode = 448\<rparr>)])"
    by code_simp
  then have f: "fst (make_dir_path ?sys [] ?P 448) = None" by simp
  have err: "make_dir_path ?sys [] ''/proc/x/y'' 448
       = (Some ''/proc/x: mkdir: Permission denied'', [(''/proc'', \<lparr>st_uid = 1000, st_mode = 448\<rparr>)])"
    by code_simp
  have stable: "\<forall>fs p m. fst (sys_mkdir ?sys fs p m) = None \<or> fst (sys_mkdir ?sys fs p m) = Some EEXIST
                    \<longrightarrow> ?present (snd (sys_mkdir ?sys fs p m)) p"
    by (auto simp: demo_sys_def)
  have exist: "\<forall>fs p m. ?present fs p \<longrightarrow> fst (sys_mkdir ?sys fs p m) = Some EEXIST"
    by (auto simp: demo_sys_def)
  have mono: "\<forall>fs p m q. ?present fs q \<longrightarrow> ?present (snd (sys_mkdir ?sys fs p m)) q"
    by (auto simp: demo_sys_def)
  from make_dir_path_prefixes[where P = ?P and sys = ?sys and fs = "[]" and m = 448 and present = ?present]
    nul stable exist mono f
  have "fst (make_dir_path ?sys (snd (make_dir_path ?sys [] ?P 448)) ?P 448) = None"
    by blast
  with sp first err show ?thesis by blast
qed

text \<open>
  C7.  Without a slash in the path, \<open>mkdir_path\<close> returns the empty string and leaves
  the file system alone.  Otherwise the parent is the text before the last slash: if
  \<open>access\<close> finds it, the result is again the empty string and the file system is
  untouched; if not, the result is that of \<open>make_dir_path\<close> on the parent with mode
  \<open>0777\<close>.  \<open>make_dir_path\<close> never returns the empty string, so the marker is
  returned in exactly these two cases.
\<close>

theorem mkdir_path_cases:
  "(CHR ''/'' \<notin> set F \<longrightarrow> mkdir_path sys fs \<lparr>path = F\<rparr> = (Some [], fs))
   \<and> (F = parent @ CHR ''/'' # leaf \<and> CHR ''/'' \<notin> set leaf \<and> NUL \<notin> set F \<longrightarrow>
        mkdir_path sys fs \<lparr>path = F\<rparr>
          = (if sys_access sys fs parent then (Some [], fs) else make_dir_path sys fs parent 511)
        \<and> (fst (mkdir_path sys fs \<lparr>path = F\<rparr>) = Some [] \<longleftrightarrow> sys_access sys fs parent))
   \<and> fst (make_dir_path sys fs P m) \<noteq> Some []"
proof (intro conjI impI; (elim conjE)?)
  assume "CHR ''/'' \<notin> set F"
  then show "mkdir_path sys fs \<lparr>path = F\<rparr> = (Some [], fs)"
    by (simp add: mkdir_path_def strrchr_none)
next
  assume a: "F = parent @ CHR ''/'' # leaf" "CHR ''/'' \<notin> set leaf" "NUL \<notin> set F"
  from strrchr_last[OF a(3)[unfolded a(1)] a(2)] a(1)
  show e: "mkdir_path sys fs \<lparr>path = F\<rparr>
          = (if sys_access sys fs parent then (Some [], fs) else make_dir_path sys fs parent 511)"
    by (simp add: mkdir_path_def)
  show "fst (mkdir_path sys fs \<lparr>path = F\<rparr>) = Some [] \<longleftrightarrow> sys_access sys fs parent"
    unfolding e using make_dir_path_from_msg[of sys parent 511 0 fs]
    by (simp add: make_dir_path_def)
next
  show "fst (make_dir_path sys fs P m) \<noteq> Some []"
    by (simp add: make_dir_path_def make_dir_path_from_msg)
qed

theorem mkdir_path_witness:
  "mkdir_path (demo_sys 1000) [] \<lparr>path = ''file.txt''\<rparr> = (Some [], [])
   \<and> mkdir_path (demo_sys 1000) [(''/existing/dir'', \<lparr>st_uid = 1000, st_mode = 493\<rparr>)]
        \<lparr>path = ''/existing/dir/file.txt''\<rparr>
      = (Some [], [(''/existing/dir'', \<lparr>st_uid = 1000, st_mode = 493\<rparr>)])
   \<and> mkdir_path (demo_sys 1000) [] \<lparr>path = ''/a/b/file.txt''\<rparr>
      = (None, [(''/a/b'', \<lparr>st_uid = 1000, st_mode = 511\<rparr>), (''/a'', \<lparr>st_uid = 1000, st_mode = 511\<rparr>)])"
proof -
  let ?sys = "demo_sys 1000"
  let ?fs = "[(''/existing/dir'', \<lparr>st_uid = 1000, st_mode = 493\<rparr>)]"
  have n: "CHR ''/'' \<notin> set ''file.txt''" by simp
  from mkdir_path_cases[where F = "''file.txt''" and sys = ?sys and fs = "[]"] n
  have 1: "mkdir_path ?sys [] \<lparr>path = ''file.txt''\<rparr> = (Some [], [])" by blast
  have s: "''/existing/dir/file.txt'' = ''/existing/dir'' @ CHR ''/'' # ''file.txt''"
    "NUL \<notin> set ''/existing/dir/file.txt''" by (simp_all add: NUL_def)
  have acc: "sys_access ?sys ?fs ''/existing/dir''" by (simp add: demo_sys_def)
  from mkdir_path_cases[where F = "''/existing/dir/file.txt''" and parent = "''/existing/dir''"
      and leaf = "''file.txt''" and sys = ?sys and fs = ?fs] s n
  have "mkdir_path ?sys ?fs \<lparr>path = ''/existing/dir/file.txt''\<rparr>
        = (if sys_access ?sys ?fs ''/existing/dir'' then (Some [], ?fs)
           else make_dir_path ?sys ?fs ''/existing/dir'' 511)"
    by blast
  with acc have 2: "mkdir_path ?sys ?fs \<lparr>path = ''/existing/dir/file.txt''\<rparr> = (Some [], ?fs)"
    by (simp only: if_True)
  have s3: "''/a/b/file.txt'' = ''/a/b'' @ CHR ''/'' # ''file.txt''"
    "NUL \<notin> set ''/a/b/file.txt''" by (simp_all add: NUL_def)
  have acc3: "\<not> sys_access ?sys [] ''/a/b''" by (simp add: demo_sys_def)
  have mk: "make_dir_path ?sys [] ''/a/b'' 511
      = (None, [(''/a/b'', \<lparr>st_uid = 1000, st_mode = 511\<rparr>), (''/a'', \<lparr>st_uid = 1000, st_mode = 511\<rparr>)])"
    by code_simp
  from mkdir_path_cases[where F = "''/a/b/file.txt''" and parent = "''/a/b''"
      and leaf = "''file.txt''" and sys = ?sys and fs = "[]"] s3 n
  have "mkdir_path ?sys [] \<lparr>path = ''/a/b/file.txt''\<rparr>
        = (if sys_access ?sys [] ''/a/b'' then (Some [], [])
           else make_dir_path ?sys [] ''/a/b'' 511)"
    by blast
  with acc3 mk have 3: "mkdir_path ?sys [] \<lparr>path = ''/a/b/file.txt''\<rparr>
      = (None, [(''/a/b'', \<lparr>st_uid = 1000, st_mode = 511\<rparr>), (''/a'', \<lparr>st_uid = 1000, st_mode = 511\<rparr>)])"
    by (simp only: if_False)
  from 1 2 3 show ?thesis by blast
qed

section \<open>Claims about filenames\<close>

text \<open>
  C10.  If the buffer has \<open>maxsize\<close> bytes and \<open>maxsize\<close> is at least the length
  \<open>filename_serialise (f, NULL)\<close> returns, then serialising \<open>f\<close> into the buffer and
  deserialising it gives a \<open>Filename\<close> with the path of \<open>f\<close> and sets \<open>*used\<close> to
  that length, \<open>strlen (path) + 1\<close>.  On any readable buffer of at least \<open>maxsize\<close>
  bytes, \<open>filename_deserialise\<close> returns NULL exactly when none of the first
  \<open>maxsize\<close> bytes is NUL.
\<close>

theorem filename_roundtrip:
  "(filename_serialise f None = Inr (len, None) \<and> length data = maxsize \<and> len \<le> maxsize \<longrightarrow>
      len = strlen (path f) + 1
      \<and> (\<exists>data'. filename_serialise f (Some data) = Inr (len, Some data')
             \<and> filename_deserialise data' maxsize = Inr (Some (\<lparr>path = cstr (path f)\<rparr>, len))))
   \<and> (maxsize \<le> length b \<and> None \<notin> set (take maxsize b) \<longrightarrow>
        (filename_deserialise b maxsize = Inr None \<longleftrightarrow> Some NUL \<notin> set (take maxsize b))
        \<and> (\<exists>r. filename_deserialise b maxsize = Inr r))"
proof (intro conjI impI; (elim conjE)?)
  assume a: "filename_serialise f None = Inr (len, None)" "length data = maxsize" "len \<le> maxsize"
  let ?p = "cstr (path f)"
  from a(1) have len: "len = length ?p + 1"
    by (simp add: filename_serialise_def strlen_def)
  then show "len = strlen (path f) + 1"
    by (simp add: strlen_def)
  from len a have room: "0 + length (?p @ [NUL]) \<le> length data" by simp
  let ?d = "map Some ?p @ Some NUL # drop (length ?p + 1) data"
  from pokes_ok[OF room] have cp: "strcpy data (path f) = Inr ?d"
    by (simp add: strcpy_def)
  have "memchr ?d NUL maxsize = Inr (Some (length ?p))"
    using a len by (intro memchr_found cstr_no_NUL) simp
  moreover have "c_string ?d = Inr ?p"
    by (rule c_string_terminated[OF cstr_no_NUL])
  moreover have "cstr ?p = ?p"
    by (simp add: cstr_def)
  ultimately show "\<exists>data'. filename_serialise f (Some data) = Inr (len, Some data')
           \<and> filename_deserialise data' maxsize = Inr (Some (\<lparr>path = cstr (path f)\<rparr>, len))"
    using cp len by (simp add: filename_serialise_def filename_deserialise_def filename_from_str_def strlen_def)
next
  assume b: "maxsize \<le> length b" "None \<notin> set (take maxsize b)"
  from memchr_none[OF b] show "filename_deserialise b maxsize = Inr None \<longleftrightarrow> Some NUL \<notin> set (take maxsize b)"
    by (auto simp: filename_deserialise_def split: sum.splits option.splits)
next
  assume b: "maxsize \<le> length b" "None \<notin> set (take maxsize b)"
  from memchr_none[OF b] obtain r where r: "memchr b NUL maxsize = Inr r" by auto
  show "\<exists>r. filename_deserialise b maxsize = Inr r"
  proof (cases r)
    case None
    with r show ?thesis by (simp add: filename_deserialise_def)
  next
    case (Some k)
    with r memchr_prefix[of b maxsize k] obtain xs t where
      "b = map Some xs @ Some NUL # t" "NUL \<notin> set xs" by auto
    with c_string_terminated[of xs t] have "c_string b = Inr xs" by simp
    with r Some show ?thesis by (simp add: filename_deserialise_def)
  qed
qed

theorem filename_roundtrip_witness:
  "filename_serialise \<lparr>path = ''/tmp/x''\<rparr> None = Inr (7, None)
   \<and> (\<exists>data'. filename_serialise \<lparr>path = ''/tmp/x''\<rparr> (Some (smalloc 8)) = Inr (7, Some data')
          \<and> filename_deserialise data' 8 = Inr (Some (\<lparr>path = ''/tmp/x''\<rparr>, 7)))
   \<and> filename_deserialise (map Some ''abc'') 3 = Inr None"
proof -
  let ?f = "\<lparr>path = ''/tmp/x''\<rparr>"
  have s: "filename_serialise ?f None = Inr (7, None)" by code_simp
  have l: "length (smalloc 8) = 8" "(7::nat) \<le> 8" by (simp_all add: smalloc_def)
  have c: "cstr (path ?f) = ''/tmp/x''" by code_simp
  have b: "(3::nat) \<le> length (map Some ''abc'')" "None \<notin> set (take 3 (map Some ''abc''))"
    "Some NUL \<notin> set (take 3 (map Some ''abc''))"
    by (simp_all add: NUL_def)
  note T = filename_roundtrip[where f = ?f and len = 7 and data = "smalloc 8" and maxsize = 8]
  note U = filename_roundtrip[where maxsize = 3 and b = "map Some ''abc''"]
  from T s l have "\<exists>data'. filename_serialise ?f (Some (smalloc 8)) = Inr (7, Some data')
          \<and> filename_deserialise data' 8 = Inr (Some (\<lparr>path = cstr (path ?f)\<rparr>, 7))"
    by blast
  moreover from U b have "filename_deserialise (map Some ''abc'') 3 = Inr None"
    by blast
  ultimately show ?thesis using s unfolding c by blast
qed

end
